theory Spec2Isabelle
  imports Main "HOL-Library.List_Lexorder" "HOL-Library.Sublist"
begin

section \<open>The program\<close>

subsection \<open>Code units, texts and offsets\<close>

text \<open>
  A code unit (\<^verbatim>\<open>wchar_t\<close>) is a non-negative integer and a text or a pattern
  (\<^verbatim>\<open>std::wstring\<close>) is a list of code units. Text offsets are the
  \<^verbatim>\<open>int\<close>s of the source: the unbounded integers here, which agree with the
  machine integers as long as the text has fewer than \<open>2^30\<close> code units, so that no
  sum of two offsets wraps. Where \<^verbatim>\<open>wchar_t\<close> is a signed type its negative values are
  no code units of a text.
\<close>

type_synonym wchar = nat
type_synonym wstring = "wchar list"

subsection \<open>Grouped query values (grouped-data.hpp)\<close>

datatype group_type = AND | OR

record grouped_data =
  gtype :: group_type
  strs :: "wstring list"

text \<open>\<^verbatim>\<open>operator&(const std::wstring&, const std::wstring&)\<close>\<close>

definition and_str_str :: "wstring \<Rightarrow> wstring \<Rightarrow> grouped_data" where
  "and_str_str s1 s2 = \<lparr>gtype = AND, strs = [s1, s2]\<rparr>"

text \<open>\<^verbatim>\<open>operator&=\<close>: \<^verbatim>\<open>value.strs.push_back(s2)\<close>; the updated group is returned.\<close>

definition and_assign :: "grouped_data \<Rightarrow> wstring \<Rightarrow> grouped_data" where
  "and_assign v s2 = v\<lparr>strs := strs v @ [s2]\<rparr>"

text \<open>\<^verbatim>\<open>operator&(const grouped_data<AND>&, const std::wstring&)\<close>: a copy is extended.\<close>

definition and_group_str :: "grouped_data \<Rightarrow> wstring \<Rightarrow> grouped_data" where
  "and_group_str v s2 = (let result = v in and_assign result s2)"

text \<open>\<^verbatim>\<open>operator&(const std::wstring&, const grouped_data<AND>&)\<close>\<close>

definition and_str_group :: "wstring \<Rightarrow> grouped_data \<Rightarrow> grouped_data" where
  "and_str_group s1 v = (let result = v in and_assign result s1)"

definition or_str_str :: "wstring \<Rightarrow> wstring \<Rightarrow> grouped_data" where
  "or_str_str s1 s2 = \<lparr>gtype = OR, strs = [s1, s2]\<rparr>"

definition or_assign :: "grouped_data \<Rightarrow> wstring \<Rightarrow> grouped_data" where
  "or_assign v s2 = v\<lparr>strs := strs v @ [s2]\<rparr>"

definition or_group_str :: "grouped_data \<Rightarrow> wstring \<Rightarrow> grouped_data" where
  "or_group_str v s2 = (let result = v in or_assign result s2)"

definition or_str_group :: "wstring \<Rightarrow> grouped_data \<Rightarrow> grouped_data" where
  "or_str_group s1 v = (let result = v in or_assign result s1)"

subsection \<open>Substring locator (sa-match.hpp)\<close>

text \<open>
  \<^verbatim>\<open>s.data()\<close> points at the code units of \<open>s\<close> followed by one terminating zero.
  Reading past the terminator is outside the buffer: undefined behaviour, \<open>None\<close> here.
\<close>

definition c_str_at :: "wstring \<Rightarrow> nat \<Rightarrow> wchar option" where
  "c_str_at s i =
     (if i < length s then Some (s ! i) else if i = length s then Some 0 else None)"

text \<open>
  \<^verbatim>\<open>std::char_traits<wchar_t>::compare(p1, p2, count)\<close> (\<^verbatim>\<open>wmemcmp\<close>): the first
  difference among \<open>count\<close> code units decides, read from left to right; here \<open>p1\<close> is
  \<open>s.data() + i\<close> and \<open>p2\<close> is \<open>t.data() + j\<close>.
\<close>

fun char_traits_compare :: "wstring \<Rightarrow> nat \<Rightarrow> wstring \<Rightarrow> nat \<Rightarrow> nat \<Rightarrow> int option" where
  "char_traits_compare s i t j 0 = Some 0"
| "char_traits_compare s i t j (Suc cnt) =
     (case c_str_at s i of
        None \<Rightarrow> None
      | Some a \<Rightarrow>
          (case c_str_at t j of
             None \<Rightarrow> None
           | Some b \<Rightarrow>
               if a < b then Some (- 1)
               else if b < a then Some 1
               else char_traits_compare s (Suc i) t (Suc j) cnt))"

text \<open>\<^verbatim>\<open>v[i]\<close> of a \<^verbatim>\<open>std::vector\<close> at an \<^verbatim>\<open>int\<close> index; out of range is \<open>None\<close>.\<close>

definition at :: "'a list \<Rightarrow> int \<Rightarrow> 'a option" where
  "at xs i = (if 0 \<le> i \<and> i < int (length xs) then Some (xs ! nat i) else None)"

text \<open>The comparison of one probe: \<^verbatim>\<open>compare(ps + sa[mid], pt, t.size())\<close>.\<close>

definition probe :: "wstring \<Rightarrow> int list \<Rightarrow> wstring \<Rightarrow> int \<Rightarrow> int option" where
  "probe s sa t mid =
     (case at sa mid of
        None \<Rightarrow> None
      | Some p \<Rightarrow> if p < 0 then None else char_traits_compare s (nat p) t 0 (length t))"

text \<open>
  The lambda \<^verbatim>\<open>bin(first)\<close>: the loop \<^verbatim>\<open>while(l <= r)\<close> with its three variables.
  \<open>l\<close> and \<open>r + 1\<close> are never negative in the loop, so \<open>div\<close> is C's division.
\<close>

function bin :: "wstring \<Rightarrow> int list \<Rightarrow> wstring \<Rightarrow> bool \<Rightarrow> int \<Rightarrow> int \<Rightarrow> int \<Rightarrow> int option" where
  "bin s sa t first l r ans =
     (if l \<le> r then
        (case probe s sa t ((l + r) div 2) of
           None \<Rightarrow> None
         | Some cmp \<Rightarrow>
             if cmp = 0 then
               (if first then bin s sa t first l ((l + r) div 2 - 1) ((l + r) div 2)
                else bin s sa t first ((l + r) div 2 + 1) r ((l + r) div 2))
             else if cmp > 0 then bin s sa t first l ((l + r) div 2 - 1) ans
             else bin s sa t first ((l + r) div 2 + 1) r ans)
      else Some ans)"
  by pat_completeness auto
termination
  by (relation "measure (\<lambda>(s, sa, t, first, l, r, ans). nat (r - l + 1))") auto

declare bin.simps [simp del]

text \<open>
  \<^verbatim>\<open>sa_match(s, sa, t)\<close>. A vector of negative size cannot be built
  (\<^verbatim>\<open>std::length_error\<close>): \<open>None\<close>. \<^verbatim>\<open>std::sort\<close> on integers is \<^const>\<open>sort\<close>.
\<close>

definition sa_match :: "wstring \<Rightarrow> int list \<Rightarrow> wstring \<Rightarrow> int list option" where
  "sa_match s sa t =
     (if length s < length t then Some []
      else if length s = length t then (if s = t then Some [0] else Some [])
      else
        (case bin s sa t True 0 (int (length s) - 1) (- 1) of
           None \<Rightarrow> None
         | Some ansl \<Rightarrow>
             (case bin s sa t False 0 (int (length s) - 1) (- 1) of
                None \<Rightarrow> None
              | Some ansr \<Rightarrow>
                  if ansl = - 1 then Some []
                  else if ansr - ansl + 1 < 0 then None
                  else
                    (case those (map (at sa) [ansl..ansr]) of
                       None \<Rightarrow> None
                     | Some ans \<Rightarrow> Some (sort ans)))))"

subsection \<open>Proximity combinator (grouped-data.hpp)\<close>

text \<open>
  The inner loop of the AND overload of \<^verbatim>\<open>grouped_match\<close>, on \<open>ans\<close> and
  \<open>f = fevery[i]\<close> with the indices \<open>j\<close>, \<open>k\<close> and the output \<open>buffer\<close>.
\<close>

function and_while :: "int \<Rightarrow> int list \<Rightarrow> int list \<Rightarrow> nat \<Rightarrow> nat \<Rightarrow> int list \<Rightarrow> int list" where
  "and_while md ans f j k buffer =
     (if j < length ans \<and> k < length f then
        (if \<bar>ans ! j - f ! k\<bar> \<le> md then
           and_while md ans f (j + 1) (k + 1) (buffer @ [min (ans ! j) (f ! k)])
         else if ans ! j < f ! k then and_while md ans f (j + 1) k buffer
         else and_while md ans f j (k + 1) buffer)
      else buffer)"
  by pat_completeness auto
termination
  by (relation "measure (\<lambda>(md, ans, f, j, k, buffer). (length ans - j) + (length f - k))") auto

declare and_while.simps [simp del]

text \<open>The first loop of the OR overload; it hands over \<open>j\<close>, \<open>k\<close> and \<open>buffer\<close>.\<close>

function or_while :: "int \<Rightarrow> int list \<Rightarrow> int list \<Rightarrow> nat \<Rightarrow> nat \<Rightarrow> int list \<Rightarrow> nat \<times> nat \<times> int list" where
  "or_while md ans f j k buffer =
     (if j < length ans \<and> k < length f then
        (if \<bar>ans ! j - f ! k\<bar> \<le> md then
           or_while md ans f (j + 1) (k + 1) (buffer @ [min (ans ! j) (f ! k)])
         else if ans ! j < f ! k then or_while md ans f (j + 1) k (buffer @ [ans ! j])
         else or_while md ans f j (k + 1) (buffer @ [f ! k]))
      else (j, k, buffer))"
  by pat_completeness auto
termination
  by (relation "measure (\<lambda>(md, ans, f, j, k, buffer). (length ans - j) + (length f - k))") auto

declare or_while.simps [simp del]

text \<open>
  One pass of the outer loop: the new \<open>ans\<close>. For OR the two draining loops append what
  is left of \<open>ans\<close> and then what is left of \<open>f\<close>.
\<close>

definition combine :: "group_type \<Rightarrow> int \<Rightarrow> int list \<Rightarrow> int list \<Rightarrow> int list" where
  "combine ty md ans f =
     (case ty of
        AND \<Rightarrow> and_while md ans f 0 0 []
      | OR \<Rightarrow> (case or_while md ans f 0 0 [] of (j, k, buffer) \<Rightarrow> buffer @ drop j ans @ drop k f))"

text \<open>
  \<^verbatim>\<open>grouped_match(str, sa, data, md)\<close>, both overloads: the kind of the group selects the
  inner loop. \<open>fevery\<close> holds the occurrence list of every pattern.
\<close>

definition grouped_match :: "wstring \<Rightarrow> int list \<Rightarrow> grouped_data \<Rightarrow> int \<Rightarrow> int list option" where
  "grouped_match str sa data md =
     (if length (strs data) = 0 then Some (map int [0..<length str])
      else
        (case those (map (sa_match str sa) (strs data)) of
           None \<Rightarrow> None
         | Some fevery \<Rightarrow> Some (foldl (combine (gtype data) md) (fevery ! 0) (tl fevery))))"

text \<open>\<^verbatim>\<open>string_data::search\<close>, on the text and the suffix array the index owns.\<close>

definition search :: "wstring \<Rightarrow> int list \<Rightarrow> wstring \<Rightarrow> int list option" where
  "search m_str sa pattern = sa_match m_str sa pattern"

definition search_group :: "wstring \<Rightarrow> int list \<Rightarrow> grouped_data \<Rightarrow> int \<Rightarrow> int list option" where
  "search_group m_str sa data max_distance = grouped_match m_str sa data max_distance"

subsection \<open>Suffix array by comparison sort (sa_is.hpp)\<close>

text \<open>
  The comparator of \<^verbatim>\<open>buildSimple\<close>: the lambda \<^verbatim>\<open>[s, n](int a, int b)\<close> with its loop
  variable \<open>i\<close>. Every read is guarded by \<open>a + i < n\<close> and \<open>b + i < n\<close>.
\<close>

function suffix_less :: "wstring \<Rightarrow> nat \<Rightarrow> nat \<Rightarrow> nat \<Rightarrow> nat \<Rightarrow> bool" where
  "suffix_less s n a b i =
     (if a + i < n \<and> b + i < n then
        (if s ! (a + i) < s ! (b + i) then True
         else if s ! (a + i) > s ! (b + i) then False
         else suffix_less s n a b (i + 1))
      else (a + i = n \<and> b + i < n))"
  by pat_completeness auto
termination
  by (relation "measure (\<lambda>(s, n, a, b, i). n - (a + i))") auto

declare suffix_less.simps [simp del]

text \<open>
  \<^verbatim>\<open>std::sort(first, last, comp)\<close> as insertion sort with the comparator. The standard
  fixes the result of \<^verbatim>\<open>std::sort\<close> only up to the order of equivalent elements; the
  comparator of \<^verbatim>\<open>buildSimple\<close> has none, so every sorting algorithm returns this list
  (lemma \<open>sort_postcondition_unique\<close> below).
\<close>

fun insert_by :: "('a \<Rightarrow> 'a \<Rightarrow> bool) \<Rightarrow> 'a \<Rightarrow> 'a list \<Rightarrow> 'a list" where
  "insert_by lt x [] = [x]"
| "insert_by lt x (y # ys) = (if lt x y then x # y # ys else y # insert_by lt x ys)"

definition std_sort :: "('a \<Rightarrow> 'a \<Rightarrow> bool) \<Rightarrow> 'a list \<Rightarrow> 'a list" where
  "std_sort lt xs = foldr (insert_by lt) xs []"

text \<open>
  \<^verbatim>\<open>buildSimple(s, n, sa)\<close>: \<^verbatim>\<open>sa.resize(n)\<close> and the loop \<^verbatim>\<open>sa[i] = i\<close> leave
  \<open>[0, ..., n - 1]\<close> whatever \<open>sa\<close> held; then the sort.
\<close>

definition buildSimple :: "wstring \<Rightarrow> nat \<Rightarrow> nat list" where
  "buildSimple s n = std_sort (\<lambda>a b. suffix_less s n a b 0) [0..<n]"

text \<open>
  The object: its four members \<^verbatim>\<open>sa_\<close>, \<^verbatim>\<open>lcp_\<close>, \<^verbatim>\<open>text_\<close> and \<^verbatim>\<open>n_\<close> (a name
  cannot end in an underscore here). \<open>m_text\<close> is the text, \<open>m_n\<close> code units long.
\<close>

record SuffixArray =
  m_sa :: "nat list"
  m_lcp :: "nat list"
  m_text :: wstring
  m_n :: nat

text \<open>Checked access to a vector or to the text: out of range is \<open>None\<close>.\<close>

definition rd :: "'a list \<Rightarrow> nat \<Rightarrow> 'a option" where
  "rd xs i = (if i < length xs then Some (xs ! i) else None)"

definition wr :: "'a list \<Rightarrow> nat \<Rightarrow> 'a \<Rightarrow> 'a list option" where
  "wr xs i v = (if i < length xs then Some (xs[i := v]) else None)"

text \<open>\<^verbatim>\<open>v.resize(n, x)\<close>\<close>

definition resize :: "'a list \<Rightarrow> nat \<Rightarrow> 'a \<Rightarrow> 'a list" where
  "resize xs n x = take n xs @ replicate (n - length xs) x"

text \<open>\<^verbatim>\<open>computeLCP\<close>, first loop: \<^verbatim>\<open>rank[sa_[i]] = i\<close> for \<open>i\<close> from \<open>0\<close> to \<open>n - 1\<close>.\<close>

function rank_loop :: "nat list \<Rightarrow> nat \<Rightarrow> nat list \<Rightarrow> nat \<Rightarrow> nat list option" where
  "rank_loop sa n rank i =
     (if i < n then
        (case rd sa i of
           None \<Rightarrow> None
         | Some p \<Rightarrow>
             (case wr rank p i of
                None \<Rightarrow> None
              | Some rank' \<Rightarrow> rank_loop sa n rank' (i + 1)))
      else Some rank)"
  by pat_completeness auto
termination
  by (relation "measure (\<lambda>(sa, n, rank, i). n - i)") auto

declare rank_loop.simps [simp del]

text \<open>
  The inner loop
  \<^verbatim>\<open>while (i + h < n && j + h < n && text_[i + h] == text_[j + h]) h++\<close>; it returns \<open>h\<close>.
\<close>

function lcp_extend :: "wstring \<Rightarrow> nat \<Rightarrow> nat \<Rightarrow> nat \<Rightarrow> nat \<Rightarrow> nat option" where
  "lcp_extend txt n i j h =
     (if i + h < n \<and> j + h < n then
        (case rd txt (i + h) of
           None \<Rightarrow> None
         | Some a \<Rightarrow>
             (case rd txt (j + h) of
                None \<Rightarrow> None
              | Some b \<Rightarrow> if a = b then lcp_extend txt n i j (h + 1) else Some h))
      else Some h)"
  by pat_completeness auto
termination
  by (relation "measure (\<lambda>(txt, n, i, j, h). n - (i + h))") auto

declare lcp_extend.simps [simp del]

text \<open>The second loop of \<^verbatim>\<open>computeLCP\<close>, with \<open>i\<close> and \<open>h\<close>; it returns \<open>m_lcp\<close>.\<close>

function kasai_loop ::
  "wstring \<Rightarrow> nat list \<Rightarrow> nat list \<Rightarrow> nat \<Rightarrow> nat list \<Rightarrow> nat \<Rightarrow> nat \<Rightarrow> nat list option" where
  "kasai_loop txt sa rank n lcp i h =
     (if i < n then
        (case rd rank i of
           None \<Rightarrow> None
         | Some ri \<Rightarrow>
             if ri > 0 then
               (case rd sa (ri - 1) of
                  None \<Rightarrow> None
                | Some j \<Rightarrow>
                    (case lcp_extend txt n i j h of
                       None \<Rightarrow> None
                     | Some h' \<Rightarrow>
                         (case wr lcp ri h' of
                            None \<Rightarrow> None
                          | Some lcp' \<Rightarrow>
                              kasai_loop txt sa rank n lcp' (i + 1)
                                (if h' > 0 then h' - 1 else h'))))
             else kasai_loop txt sa rank n lcp (i + 1) h)
      else Some lcp)"
  by pat_completeness auto
termination
  by (relation "measure (\<lambda>(txt, sa, rank, n, lcp, i, h). n - i)") auto

declare kasai_loop.simps [simp del]

text \<open>\<^verbatim>\<open>computeLCP()\<close> on the object; it returns the object with \<open>m_lcp\<close> filled.\<close>

definition computeLCP :: "SuffixArray \<Rightarrow> SuffixArray option" where
  "computeLCP S =
     (case rank_loop (m_sa S) (length (m_sa S)) (replicate (length (m_sa S)) 0) 0 of
        None \<Rightarrow> None
      | Some rank \<Rightarrow>
          (case kasai_loop (m_text S) (m_sa S) rank (length (m_sa S))
                  (resize (m_lcp S) (length (m_sa S)) 0) 0 0 of
             None \<Rightarrow> None
           | Some lcp \<Rightarrow> Some (S\<lparr>m_lcp := lcp\<rparr>)))"

text \<open>
  The constructor \<^verbatim>\<open>SuffixArray(text, len)\<close>; the list \<open>txt\<close> is the \<open>len\<close> code units
  at \<open>text\<close>.
\<close>

definition new_SuffixArray :: "wstring \<Rightarrow> SuffixArray option" where
  "new_SuffixArray txt =
     (if length txt = 0
      then Some \<lparr>m_sa = [], m_lcp = [], m_text = txt, m_n = length txt\<rparr>
      else computeLCP
             \<lparr>m_sa = buildSimple txt (length txt), m_lcp = [], m_text = txt, m_n = length txt\<rparr>)"

subsection \<open>Pattern matcher on the object (sa_match.hpp)\<close>

text \<open>
  \<^verbatim>\<open>comparePattern(pattern, pattern_len, suffix_idx)\<close>: its loop over \<open>i\<close>. The pattern
  is the list of its \<open>pattern_len\<close> code units.
\<close>

function comparePattern_loop :: "SuffixArray \<Rightarrow> wstring \<Rightarrow> nat \<Rightarrow> nat \<Rightarrow> int" where
  "comparePattern_loop S pattern pos i =
     (if i < length pattern then
        (if pos + i \<ge> m_n S then 1
         else if pattern ! i < m_text S ! (pos + i) then - 1
         else if pattern ! i > m_text S ! (pos + i) then 1
         else comparePattern_loop S pattern pos (i + 1))
      else 0)"
  by pat_completeness auto
termination
  by (relation "measure (\<lambda>(S, pattern, pos, i). length pattern - i)") auto

declare comparePattern_loop.simps [simp del]

definition comparePattern :: "SuffixArray \<Rightarrow> wstring \<Rightarrow> nat \<Rightarrow> int" where
  "comparePattern S pattern suffix_idx = comparePattern_loop S pattern suffix_idx 0"

function findLeft_loop :: "SuffixArray \<Rightarrow> wstring \<Rightarrow> nat \<Rightarrow> nat \<Rightarrow> nat" where
  "findLeft_loop S pattern left right =
     (if left < right then
        (if comparePattern S pattern (m_sa S ! (left + (right - left) div 2)) > 0
         then findLeft_loop S pattern (left + (right - left) div 2 + 1) right
         else findLeft_loop S pattern left (left + (right - left) div 2))
      else left)"
  by pat_completeness auto
termination
  by (relation "measure (\<lambda>(S, pattern, left, right). right - left)") auto

declare findLeft_loop.simps [simp del]

definition findLeft :: "SuffixArray \<Rightarrow> wstring \<Rightarrow> nat" where
  "findLeft S pattern = findLeft_loop S pattern 0 (length (m_sa S))"

function findRight_loop :: "SuffixArray \<Rightarrow> wstring \<Rightarrow> nat \<Rightarrow> nat \<Rightarrow> nat" where
  "findRight_loop S pattern left right =
     (if left < right then
        (if comparePattern S pattern (m_sa S ! (left + (right - left) div 2)) \<ge> 0
         then findRight_loop S pattern (left + (right - left) div 2 + 1) right
         else findRight_loop S pattern left (left + (right - left) div 2))
      else left)"
  by pat_completeness auto
termination
  by (relation "measure (\<lambda>(S, pattern, left, right). right - left)") auto

declare findRight_loop.simps [simp del]

definition findRight :: "SuffixArray \<Rightarrow> wstring \<Rightarrow> nat" where
  "findRight S pattern = findRight_loop S pattern 0 (length (m_sa S))"

text \<open>
  \<^verbatim>\<open>findAll\<close>, \<^verbatim>\<open>exists\<close> and \<^verbatim>\<open>count\<close>. The loop of \<^verbatim>\<open>findAll\<close> copies
  \<open>sa[left], ..., sa[right - 1]\<close>; \<^verbatim>\<open>count\<close> returns the \<^verbatim>\<open>int\<close> \<open>right - left\<close>.
\<close>

definition findAll :: "SuffixArray \<Rightarrow> wstring \<Rightarrow> nat list" where
  "findAll S pattern =
     (if length pattern = 0 \<or> m_n S = 0 then []
      else sort (map (\<lambda>i. m_sa S ! i) [findLeft S pattern..<findRight S pattern]))"

definition exists_pattern :: "SuffixArray \<Rightarrow> wstring \<Rightarrow> bool" where
  "exists_pattern S pattern =
     (if length pattern = 0 \<or> m_n S = 0 then False
      else findLeft S pattern < findRight S pattern)"

definition count_pattern :: "SuffixArray \<Rightarrow> wstring \<Rightarrow> int" where
  "count_pattern S pattern =
     (if length pattern = 0 \<or> m_n S = 0 then 0
      else int (findRight S pattern) - int (findLeft S pattern))"

subsection \<open>Suffix array by induced sorting (the earlier sa_is.hpp)\<close>

text \<open>
  The earlier version of the header builds the array with \<^verbatim>\<open>buildSAIS\<close>. Its vectors hold
  \<^verbatim>\<open>int\<close>s (\<open>- 1\<close> marks an empty slot) and every access is checked here.
\<close>

definition put :: "'a list \<Rightarrow> int \<Rightarrow> 'a \<Rightarrow> 'a list option" where
  "put xs i v = (if 0 \<le> i \<and> i < int (length xs) then Some (xs[nat i := v]) else None)"

text \<open>
  \<^verbatim>\<open>computeTypes\<close>: the loop \<^verbatim>\<open>for (i = n - 2; i >= 0; --i)\<close>; the argument \<open>Suc i\<close>
  stands for the loop variable \<open>i\<close>. \<open>True\<close> is L-type, \<open>False\<close> is S-type.
\<close>

fun computeTypes_loop :: "wstring \<Rightarrow> bool list \<Rightarrow> nat \<Rightarrow> bool list option" where
  "computeTypes_loop s types 0 = Some types"
| "computeTypes_loop s types (Suc i) =
     (case rd s i of
        None \<Rightarrow> None
      | Some a \<Rightarrow>
          (case rd s (i + 1) of
             None \<Rightarrow> None
           | Some b \<Rightarrow>
               (case (if a < b then wr types i False
                      else if a > b then wr types i True
                      else (case rd types (i + 1) of
                              None \<Rightarrow> None
                            | Some ty \<Rightarrow> wr types i ty)) of
                  None \<Rightarrow> None
                | Some types' \<Rightarrow> computeTypes_loop s types' i)))"

definition computeTypes :: "wstring \<Rightarrow> nat \<Rightarrow> bool list \<Rightarrow> bool list option" where
  "computeTypes s n types =
     (case put (resize types n False) (int n - 1) False of
        None \<Rightarrow> None
      | Some types' \<Rightarrow> computeTypes_loop s types' (n - 1))"

text \<open>\<^verbatim>\<open>isLMS(i, types)\<close>: \<^verbatim>\<open>!types[i] && types[i - 1]\<close> reads \<open>types[i - 1]\<close> only if needed.\<close>

definition isLMS :: "nat \<Rightarrow> bool list \<Rightarrow> bool option" where
  "isLMS i types =
     (if i = 0 then Some False
      else (case rd types i of
              None \<Rightarrow> None
            | Some ti \<Rightarrow> if ti then Some False else rd types (i - 1)))"

text \<open>
  \<^verbatim>\<open>induceSort\<close>, first loop: \<^verbatim>\<open>sa[--bucket_tails[s[i]]] = i\<close> for every LMS position,
  from \<open>n - 1\<close> down to \<open>0\<close>. The state is \<open>sa\<close> with the bucket pointers.
\<close>

fun place_lms :: "wstring \<Rightarrow> bool list \<Rightarrow> int list \<times> int list \<Rightarrow> nat \<Rightarrow> (int list \<times> int list) option" where
  "place_lms s types (sa, tails) 0 = Some (sa, tails)"
| "place_lms s types (sa, tails) (Suc i) =
     (case isLMS i types of
        None \<Rightarrow> None
      | Some lms \<Rightarrow>
          if lms then
            (case rd s i of
               None \<Rightarrow> None
             | Some c \<Rightarrow>
                 (case rd tails c of
                    None \<Rightarrow> None
                  | Some e \<Rightarrow>
                      (case put sa (e - 1) (int i) of
                         None \<Rightarrow> None
                       | Some sa' \<Rightarrow> place_lms s types (sa', tails[c := e - 1]) i)))
          else place_lms s types (sa, tails) i)"

text \<open>
  Second loop, from \<open>0\<close> up:
  \<^verbatim>\<open>if (sa[i] > 0 && types[sa[i] - 1]) sa[bucket_heads[s[sa[i] - 1]]++] = sa[i] - 1\<close>.
\<close>

function induce_L :: "wstring \<Rightarrow> nat \<Rightarrow> bool list \<Rightarrow> int list \<times> int list \<Rightarrow> nat \<Rightarrow> (int list \<times> int list) option" where
  "induce_L s n types st i =
     (if i < n then
        (case rd (fst st) i of
           None \<Rightarrow> None
         | Some p \<Rightarrow>
             if p > 0 then
               (case rd types (nat (p - 1)) of
                  None \<Rightarrow> None
                | Some ty \<Rightarrow>
                    if ty then
                      (case rd s (nat (p - 1)) of
                         None \<Rightarrow> None
                       | Some c \<Rightarrow>
                           (case rd (snd st) c of
                              None \<Rightarrow> None
                            | Some b \<Rightarrow>
                                (case put (fst st) b (p - 1) of
                                   None \<Rightarrow> None
                                 | Some sa' \<Rightarrow>
                                     induce_L s n types (sa', (snd st)[c := b + 1]) (i + 1))))
                    else induce_L s n types st (i + 1))
             else induce_L s n types st (i + 1))
      else Some st)"
  by pat_completeness auto
termination
  by (relation "measure (\<lambda>(s, n, types, st, i). n - i)") auto

declare induce_L.simps [simp del]

text \<open>
  Third loop, from \<open>n - 1\<close> down:
  \<^verbatim>\<open>if (sa[i] > 0 && !types[sa[i] - 1]) sa[--bucket_tails[s[sa[i] - 1]]] = sa[i] - 1\<close>.
\<close>

fun induce_S :: "wstring \<Rightarrow> bool list \<Rightarrow> int list \<times> int list \<Rightarrow> nat \<Rightarrow> (int list \<times> int list) option" where
  "induce_S s types (sa, tails) 0 = Some (sa, tails)"
| "induce_S s types (sa, tails) (Suc i) =
     (case rd sa i of
        None \<Rightarrow> None
      | Some p \<Rightarrow>
          if p > 0 then
            (case rd types (nat (p - 1)) of
               None \<Rightarrow> None
             | Some ty \<Rightarrow>
                 if \<not> ty then
                   (case rd s (nat (p - 1)) of
                      None \<Rightarrow> None
                    | Some c \<Rightarrow>
                        (case rd tails c of
                           None \<Rightarrow> None
                         | Some e \<Rightarrow>
                             (case put sa (e - 1) (p - 1) of
                                None \<Rightarrow> None
                              | Some sa' \<Rightarrow> induce_S s types (sa', tails[c := e - 1]) i)))
                 else induce_S s types (sa, tails) i)
          else induce_S s types (sa, tails) i)"

definition induceSort ::
  "wstring \<Rightarrow> nat \<Rightarrow> int list \<Rightarrow> bool list \<Rightarrow> int list \<Rightarrow> int list \<Rightarrow> int list option" where
  "induceSort s n sa types buckets bucket_ends =
     (case place_lms s types (replicate (length sa) (- 1), bucket_ends) n of
        None \<Rightarrow> None
      | Some (sa1, tails1) \<Rightarrow>
          (case induce_L s n types (sa1, buckets) 0 of
             None \<Rightarrow> None
           | Some (sa2, heads2) \<Rightarrow>
               (case induce_S s types (sa2, bucket_ends) n of
                  None \<Rightarrow> None
                | Some (sa3, tails3) \<Rightarrow> Some sa3)))"

text \<open>\<^verbatim>\<open>buildSAIS\<close>: the loop \<^verbatim>\<open>buckets[s[i]]++\<close>.\<close>

function count_loop :: "wstring \<Rightarrow> nat \<Rightarrow> int list \<Rightarrow> nat \<Rightarrow> int list option" where
  "count_loop s n buckets i =
     (if i < n then
        (case rd s i of
           None \<Rightarrow> None
         | Some c \<Rightarrow>
             (case rd buckets c of
                None \<Rightarrow> None
              | Some b \<Rightarrow> count_loop s n (buckets[c := b + 1]) (i + 1)))
      else Some buckets)"
  by pat_completeness auto
termination
  by (relation "measure (\<lambda>(s, n, buckets, i). n - i)") auto

declare count_loop.simps [simp del]

text \<open>
  The loop of the prefix sums over the alphabet; the state is
  \<open>(bucket_starts, bucket_ends, sum)\<close> (\<open>sum\<close> is \<open>acc\<close> here) and every index is below
  the size of the vectors.
\<close>

function sums_loop :: "int list \<Rightarrow> nat \<Rightarrow> int list \<times> int list \<times> int \<Rightarrow> nat \<Rightarrow> int list \<times> int list \<times> int" where
  "sums_loop buckets alphabet_size st i =
     (if i < alphabet_size then
        (case st of (starts, ends, acc) \<Rightarrow>
           sums_loop buckets alphabet_size
             (starts[i := acc], ends[i := acc + buckets ! i], acc + buckets ! i) (i + 1))
      else st)"
  by pat_completeness auto
termination
  by (relation "measure (\<lambda>(buckets, alphabet_size, st, i). alphabet_size - i)") auto

declare sums_loop.simps [simp del]

definition buildSAIS :: "wstring \<Rightarrow> nat \<Rightarrow> int list \<Rightarrow> nat \<Rightarrow> int list option" where
  "buildSAIS s n sa alphabet_size =
     (if n = 0 then Some sa
      else if n = 1 then put sa 0 0
      else
        (case computeTypes s n [] of
           None \<Rightarrow> None
         | Some types \<Rightarrow>
             (case count_loop s n (replicate alphabet_size 0) 0 of
                None \<Rightarrow> None
              | Some buckets \<Rightarrow>
                  (case sums_loop buckets alphabet_size
                          (replicate alphabet_size 0, replicate alphabet_size 0, 0) 0 of
                     (bucket_starts, bucket_ends, acc) \<Rightarrow>
                       induceSort s n sa types bucket_starts bucket_ends))))"

text \<open>
  The part of the earlier constructor that builds \<open>sa_\<close>: \<^verbatim>\<open>sa_.resize(n_)\<close>, the
  largest code unit plus one as the size of the alphabet, and \<^verbatim>\<open>buildSAIS\<close>.
\<close>

definition sais_suffix_array :: "wstring \<Rightarrow> int list option" where
  "sais_suffix_array txt =
     (if length txt = 0 then Some []
      else buildSAIS txt (length txt) (replicate (length txt) 0)
             (foldl (\<lambda>max_char c. if c > max_char then c else max_char) 0 txt + 1))"

subsection \<open>Functional views and the words of the specification\<close>

text \<open>
  The two inner loops of \<^verbatim>\<open>grouped_match\<close> as recursions on what is left of the two
  lists. They are tools of the proofs: \<open>and_while_merge\<close> and \<open>or_while_merge\<close> below
  show that the loops compute them.
\<close>

fun and_merge :: "int \<Rightarrow> int list \<Rightarrow> int list \<Rightarrow> int list" where
  "and_merge md (a # as) (b # bs) =
     (if \<bar>a - b\<bar> \<le> md then min a b # and_merge md as bs
      else if a < b then and_merge md as (b # bs)
      else and_merge md (a # as) bs)"
| "and_merge md [] bs = []"
| "and_merge md as [] = []"

fun or_merge :: "int \<Rightarrow> int list \<Rightarrow> int list \<Rightarrow> int list" where
  "or_merge md (a # as) (b # bs) =
     (if \<bar>a - b\<bar> \<le> md then min a b # or_merge md as bs
      else if a < b then a # or_merge md as (b # bs)
      else b # or_merge md (a # as) bs)"
| "or_merge md [] bs = bs"
| "or_merge md as [] = as"

text \<open>
  The data-model invariants of a suffix array \<open>sa\<close> of the text \<open>s\<close>: as long as the
  text, a permutation of the positions, and the suffixes in strictly increasing
  lexicographic order of their code units (a proper prefix is smaller).
\<close>

definition is_suffix_array :: "wstring \<Rightarrow> nat list \<Rightarrow> bool" where
  "is_suffix_array s sa \<longleftrightarrow>
     length sa = length s \<and> set sa = {0..<length s} \<and>
     sorted_wrt (\<lambda>a b. drop a s < drop b s) sa"

text \<open>
  The occurrence list in the words of the specification: the sorted list of all
  \<open>i\<close> in \<open>[0, n - m]\<close> with \<open>T[i..i+m) = P\<close>.
\<close>

definition occ_spec :: "wstring \<Rightarrow> wstring \<Rightarrow> int list" where
  "occ_spec s p =
     map int (filter (\<lambda>i. take (length p) (drop i s) = p) [0..<length s + 1 - length p])"

text \<open>
  The notions of the proof of \<^verbatim>\<open>computeLCP\<close>: \<open>rank\<close> is the inverse of \<open>sa\<close>;
  \<open>pred_lcp s sa rank i\<close> is the length of the longest common prefix of the suffix at \<open>i\<close>
  and the suffix just before it in \<open>sa\<close>; \<open>kasai_pre\<close> is what the loop knows of \<open>h\<close>
  when it reaches \<open>i\<close>.
\<close>

definition is_rank :: "nat list \<Rightarrow> nat list \<Rightarrow> bool" where
  "is_rank sa rank \<longleftrightarrow>
     length rank = length sa \<and> (\<forall>i < length sa. rank ! (sa ! i) = i)"

definition pred_lcp :: "wstring \<Rightarrow> nat list \<Rightarrow> nat list \<Rightarrow> nat \<Rightarrow> nat" where
  "pred_lcp s sa rank i =
     length (longest_common_prefix (drop i s) (drop (sa ! (rank ! i - 1)) s))"

definition kasai_pre :: "wstring \<Rightarrow> nat list \<Rightarrow> nat list \<Rightarrow> nat \<Rightarrow> nat \<Rightarrow> bool" where
  "kasai_pre s sa rank i h \<longleftrightarrow>
     (i < length s \<longrightarrow> (if 0 < rank ! i then h \<le> pred_lcp s sa rank i else h = 0))"

text \<open>
  The three-way comparison of two code-unit sequences in lexicographic order, as
  \<^verbatim>\<open>compare\<close> reports it: negative, zero or positive.
\<close>

definition cmp3 :: "wstring \<Rightarrow> wstring \<Rightarrow> int" where
  "cmp3 u t = (if u < t then - 1 else if u = t then 0 else 1)"

section \<open>Query construction\<close>

text \<open>
  C8. For a group \<open>g\<close> and a string \<open>s\<close>, the mixed-operand expressions \<open>s & g\<close> and
  \<open>s | g\<close> give a group of the same kind whose pattern list is that of \<open>g\<close> with \<open>s\<close>
  appended at the end (not put in front), hence the same value as \<open>g & s\<close> and \<open>g | s\<close>.
  The operand \<open>g\<close> is passed by constant reference and copied: the result is a new value.
\<close>

theorem mixed_operand_appends:
  "strs (and_str_group s g) = strs g @ [s] \<and> gtype (and_str_group s g) = gtype g \<and>
   and_str_group s g = and_group_str g s \<and>
   strs (or_str_group s g) = strs g @ [s] \<and> gtype (or_str_group s g) = gtype g \<and>
   or_str_group s g = or_group_str g s"
  by (simp add: and_str_group_def and_group_str_def and_assign_def
      or_str_group_def or_group_str_def or_assign_def)

section \<open>Proximity combinator\<close>

subsection \<open>The loops compute the functional views\<close>

lemma and_while_merge:
  "and_while md ans f j k buffer = buffer @ and_merge md (drop j ans) (drop k f)"
proof (induction md ans f j k buffer rule: and_while.induct)
  case (1 md ans f j k buffer)
  show ?case
  proof (cases "j < length ans \<and> k < length f")
    case True
    then have dj: "drop j ans = ans ! j # drop (Suc j) ans"
      and dk: "drop k f = f ! k # drop (Suc k) f"
      by (simp_all add: Cons_nth_drop_Suc)
    show ?thesis
      using True 1 by (subst and_while.simps) (simp add: dj dk)
  next
    case False
    then have "drop j ans = [] \<or> drop k f = []" by auto
    then have "and_merge md (drop j ans) (drop k f) = []"
      by (cases "drop j ans") auto
    with False show ?thesis by (subst and_while.simps) auto
  qed
qed

lemma or_while_merge:
  "(case or_while md ans f j k buffer of (j', k', buffer') \<Rightarrow> buffer' @ drop j' ans @ drop k' f)
     = buffer @ or_merge md (drop j ans) (drop k f)"
proof (induction md ans f j k buffer rule: or_while.induct)
  case (1 md ans f j k buffer)
  show ?case
  proof (cases "j < length ans \<and> k < length f")
    case True
    then have dj: "drop j ans = ans ! j # drop (Suc j) ans"
      and dk: "drop k f = f ! k # drop (Suc k) f"
      by (simp_all add: Cons_nth_drop_Suc)
    show ?thesis
      using True 1 by (subst or_while.simps) (simp add: dj dk)
  next
    case False
    then have "drop j ans = [] \<or> drop k f = []" by auto
    then have "or_merge md (drop j ans) (drop k f) = drop j ans @ drop k f"
      by (cases "drop j ans") auto
    with False show ?thesis by (subst or_while.simps) auto
  qed
qed

lemma combine_AND: "combine AND md ans f = and_merge md ans f"
  by (simp add: combine_def and_while_merge)

lemma combine_OR: "combine OR md ans f = or_merge md ans f"
  using or_while_merge [where md = md and ans = ans and f = f and j = 0 and k = 0 and buffer = "[]"]
  by (simp add: combine_def)

lemma set_and_merge: "set (and_merge md as bs) \<subseteq> set as \<union> set bs"
  by (induction md as bs rule: and_merge.induct) (auto simp: min_def)

lemma set_or_merge: "set (or_merge md as bs) \<subseteq> set as \<union> set bs"
  by (induction md as bs rule: or_merge.induct) (auto simp: min_def)

lemma and_merge_sorted:
  "sorted_wrt (<) as \<Longrightarrow> sorted_wrt (<) bs \<Longrightarrow> sorted_wrt (<) (and_merge md as bs)"
proof (induction md as bs rule: and_merge.induct)
  case (1 md a as b bs)
  show ?case
  proof (cases "\<bar>a - b\<bar> \<le> md")
    case True
    have "\<forall>x \<in> set (and_merge md as bs). min a b < x"
      using set_and_merge [of md as bs] 1(4,5) by fastforce
    with True 1 show ?thesis by simp
  next
    case False
    with 1 show ?thesis by simp
  qed
qed simp_all

lemma or_merge_sorted:
  "0 \<le> md \<Longrightarrow> sorted_wrt (<) as \<Longrightarrow> sorted_wrt (<) bs \<Longrightarrow> sorted_wrt (<) (or_merge md as bs)"
proof (induction md as bs rule: or_merge.induct)
  case (1 md a as b bs)
  show ?case
  proof (cases "\<bar>a - b\<bar> \<le> md")
    case True
    have "\<forall>x \<in> set (or_merge md as bs). min a b < x"
      using set_or_merge [of md as bs] 1(5,6) by fastforce
    with True 1 show ?thesis by simp
  next
    case False
    show ?thesis
    proof (cases "a < b")
      case True
      have "\<forall>x \<in> set (or_merge md as (b # bs)). a < x"
        using set_or_merge [of md as "b # bs"] 1(5,6) True by fastforce
      with True False 1 show ?thesis by simp
    next
      case nlt: False
      with False 1(4) have "b < a" by auto
      then have "\<forall>x \<in> set (or_merge md (a # as) bs). b < x"
        using set_or_merge [of md "a # as" bs] 1(5,6) by fastforce
      with nlt False 1 show ?thesis by simp
    qed
  qed
qed simp_all

lemma length_and_merge:
  "length (and_merge md as bs) \<le> min (length as) (length bs)"
  by (induction md as bs rule: and_merge.induct) auto

lemma or_merge_isolated_left:
  "p \<in> set as \<Longrightarrow> \<forall>b \<in> set bs. md < \<bar>p - b\<bar> \<Longrightarrow> p \<in> set (or_merge md as bs)"
  by (induction md as bs rule: or_merge.induct) auto

lemma or_merge_isolated_right:
  "p \<in> set bs \<Longrightarrow> \<forall>a \<in> set as. md < \<bar>a - p\<bar> \<Longrightarrow> p \<in> set (or_merge md as bs)"
  by (induction md as bs rule: or_merge.induct) auto

lemma or_merge_below_left:
  "p \<in> set bs \<Longrightarrow> \<forall>a \<in> set as. p \<le> a \<Longrightarrow> sorted_wrt (<) bs \<Longrightarrow> p \<in> set (or_merge md as bs)"
  by (induction md as bs rule: or_merge.induct) (auto simp: min_def)

lemma or_merge_below_right:
  "p \<in> set as \<Longrightarrow> \<forall>b \<in> set bs. p \<le> b \<Longrightarrow> sorted_wrt (<) as \<Longrightarrow> p \<in> set (or_merge md as bs)"
  by (induction md as bs rule: or_merge.induct) (auto simp: min_def)

lemma or_merge_common:
  "0 \<le> md \<Longrightarrow> sorted_wrt (<) as \<Longrightarrow> sorted_wrt (<) bs \<Longrightarrow> p \<in> set as \<Longrightarrow> p \<in> set bs
     \<Longrightarrow> p \<in> set (or_merge md as bs)"
proof (induction md as bs rule: or_merge.induct)
  case (1 md a as b bs)
  have sa: "sorted_wrt (<) as" and sb: "sorted_wrt (<) bs"
    and ga: "\<forall>x \<in> set as. a < x" and gb: "\<forall>x \<in> set bs. b < x"
    using 1(5,6) by simp_all
  show ?case
  proof (cases "\<bar>a - b\<bar> \<le> md")
    case match: True
    show ?thesis
    proof (cases "p = min a b")
      case True
      with match show ?thesis by simp
    next
      case False
      have "p \<in> set (or_merge md as bs)"
      proof (cases "p \<in> set as \<and> p \<in> set bs")
        case True
        with 1(1) [OF match 1(4) sa sb] show ?thesis by simp
      next
        case nb: False
        show ?thesis
        proof (cases "p \<in> set as")
          case True
          with nb 1(8) have "p = b" by simp
          with gb have "\<forall>x \<in> set bs. p \<le> x" by auto
          with True sa show ?thesis by (intro or_merge_below_right)
        next
          case False
          with 1(7) have pa: "p = a" by simp
          with False \<open>p \<noteq> min a b\<close> 1(8) have "p \<in> set bs" by (auto simp: min_def)
          moreover from pa ga have "\<forall>x \<in> set as. p \<le> x" by auto
          ultimately show ?thesis using sb by (intro or_merge_below_left)
        qed
      qed
      with match show ?thesis by simp
    qed
  next
    case nomatch: False
    show ?thesis
    proof (cases "a < b")
      case True
      show ?thesis
      proof (cases "p = a")
        case True
        with nomatch \<open>a < b\<close> show ?thesis by simp
      next
        case False
        with 1(7) have "p \<in> set as" by simp
        with 1(2) [OF nomatch True 1(4) sa 1(6)] 1(8) nomatch True show ?thesis by simp
      qed
    next
      case False
      show ?thesis
      proof (cases "p = b")
        case True
        with nomatch \<open>\<not> a < b\<close> show ?thesis by simp
      next
        case pb: False
        with 1(8) have "p \<in> set bs" by simp
        with 1(3) [OF nomatch False 1(4) 1(5) sb 1(7)] nomatch False show ?thesis by simp
      qed
    qed
  qed
qed simp_all

lemma or_merge_cover:
  "p \<in> set as \<union> set bs \<Longrightarrow>
     p \<in> set (or_merge md as bs) \<or> (\<exists>q \<in> set (or_merge md as bs). q < p \<and> p \<le> q + md)"
proof (induction md as bs rule: or_merge.induct)
  case (1 md a as b bs)
  let ?P = "\<lambda>xs. p \<in> set xs \<or> (\<exists>q \<in> set xs. q < p \<and> p \<le> q + md)"
  have step: "?P xs \<Longrightarrow> ?P (x # xs)" for x xs by auto
  have here: "p = x \<or> (x < p \<and> p \<le> x + md) \<Longrightarrow> ?P (x # xs)" for x xs by auto
  show ?case
  proof (cases "\<bar>a - b\<bar> \<le> md")
    case match: True
    then have eq: "or_merge md (a # as) (b # bs) = min a b # or_merge md as bs" by simp
    show ?thesis
    proof (cases "p = a \<or> p = b")
      case True
      with match have "p = min a b \<or> (min a b < p \<and> p \<le> min a b + md)" by (auto simp: min_def)
      then show ?thesis unfolding eq by (rule here)
    next
      case False
      with 1(4) have "p \<in> set as \<union> set bs" by auto
      from 1(1) [OF match this] show ?thesis unfolding eq by (rule step)
    qed
  next
    case nomatch: False
    show ?thesis
    proof (cases "a < b")
      case True
      with nomatch have eq: "or_merge md (a # as) (b # bs) = a # or_merge md as (b # bs)" by simp
      show ?thesis
      proof (cases "p = a")
        case True
        then show ?thesis unfolding eq by simp
      next
        case False
        with 1(4) have "p \<in> set as \<union> set (b # bs)" by auto
        from 1(2) [OF nomatch True this] show ?thesis unfolding eq by (rule step)
      qed
    next
      case False
      with nomatch have eq: "or_merge md (a # as) (b # bs) = b # or_merge md (a # as) bs" by simp
      show ?thesis
      proof (cases "p = b")
        case True
        then show ?thesis unfolding eq by simp
      next
        case pb: False
        with 1(4) have "p \<in> set (a # as) \<union> set bs" by auto
        from 1(3) [OF nomatch False this] show ?thesis unfolding eq by (rule step)
      qed
    qed
  qed
qed simp_all

section \<open>Occurrence lists are strictly increasing\<close>

lemma those_map_iff:
  "those (map f xs) = Some ys \<longleftrightarrow> list_all2 (\<lambda>x y. f x = Some y) xs ys"
proof (induction xs arbitrary: ys)
  case Nil
  then show ?case by auto
next
  case (Cons x xs)
  show ?case
    by (cases ys) (auto simp: Cons split: option.splits)
qed

lemma those_map_at:
  assumes "those (map (at sa) is) = Some ans"
  shows "ans = map (\<lambda>i. sa ! nat i) is" and "\<forall>i \<in> set is. 0 \<le> i \<and> i < int (length sa)"
proof -
  from assms have l: "list_all2 (\<lambda>i y. at sa i = Some y) is ans" by (simp add: those_map_iff)
  then have len: "length is = length ans" by (rule list_all2_lengthD)
  have nth: "at sa (is ! k) = Some (ans ! k)" if "k < length is" for k
    using l that by (simp add: list_all2_conv_all_nth)
  show "ans = map (\<lambda>i. sa ! nat i) is"
  proof (rule nth_equalityI)
    show "length ans = length (map (\<lambda>i. sa ! nat i) is)" using len by simp
  next
    fix k assume "k < length ans"
    with len nth [of k] show "ans ! k = map (\<lambda>i. sa ! nat i) is ! k"
      by (auto simp: at_def split: if_splits)
  qed
  show "\<forall>i \<in> set is. 0 \<le> i \<and> i < int (length sa)"
  proof
    fix i assume "i \<in> set is"
    then obtain k where "k < length is" "is ! k = i" by (auto simp: in_set_conv_nth)
    with nth [of k] show "0 \<le> i \<and> i < int (length sa)"
      by (auto simp: at_def split: if_splits)
  qed
qed

lemma slice_distinct:
  assumes "distinct sa" and "those (map (at sa) [l..r]) = Some ans"
  shows "distinct ans"
proof -
  from those_map_at [OF assms(2)]
  have eq: "ans = map (\<lambda>i. sa ! nat i) [l..r]"
    and rng: "\<forall>i \<in> set [l..r]. 0 \<le> i \<and> i < int (length sa)" by simp_all
  have "inj_on (\<lambda>i. sa ! nat i) (set [l..r])"
  proof (rule inj_onI)
    fix x y assume x: "x \<in> set [l..r]" and y: "y \<in> set [l..r]" and e: "sa ! nat x = sa ! nat y"
    from x rng have "0 \<le> x \<and> x < int (length sa)" by blast
    moreover from y rng have "0 \<le> y \<and> y < int (length sa)" by blast
    ultimately have "nat x < length sa" "nat y < length sa" "0 \<le> x" "0 \<le> y" by auto
    with e assms(1) show "x = y" by (simp add: nth_eq_iff_index_eq)
  qed
  then show ?thesis unfolding eq by (simp add: distinct_map)
qed

lemma sa_match_sorted:
  assumes "distinct sa" and "sa_match s sa t = Some occ"
  shows "sorted_wrt (<) occ"
proof -
  have srt: "sorted_wrt (<) (sort ans)" if "distinct ans" for ans :: "int list"
    using that by (simp add: strict_sorted_iff)
  from assms(2) show ?thesis
    by (auto simp: sa_match_def split: if_splits option.splits
        intro!: srt slice_distinct [OF assms(1)])
qed

lemma foldl_combine_sorted:
  assumes "0 \<le> md" and "sorted_wrt (<) acc" and "\<forall>f \<in> set fs. sorted_wrt (<) f"
  shows "sorted_wrt (<) (foldl (combine ty md) acc fs)"
  using assms(2,3)
proof (induction fs arbitrary: acc)
  case Nil
  then show ?case by simp
next
  case (Cons f fs)
  have "sorted_wrt (<) (combine ty md acc f)"
    using Cons.prems assms(1)
    by (cases ty) (simp_all add: combine_AND combine_OR and_merge_sorted or_merge_sorted)
  with Cons show ?case by simp
qed

lemma grouped_match_sorted:
  assumes "0 \<le> md" and "distinct sa" and "grouped_match str sa data md = Some out"
  shows "sorted_wrt (<) out"
proof (cases "strs data = []")
  case True
  with assms(3) have "out = map int [0..<length str]" by (simp add: grouped_match_def)
  then show ?thesis by (simp add: sorted_wrt_map)
next
  case False
  with assms(3) obtain fevery where fe: "those (map (sa_match str sa) (strs data)) = Some fevery"
    and out: "out = foldl (combine (gtype data) md) (fevery ! 0) (tl fevery)"
    by (auto simp: grouped_match_def split: option.splits)
  from fe have l: "list_all2 (\<lambda>p occ. sa_match str sa p = Some occ) (strs data) fevery"
    by (simp add: those_map_iff)
  have all: "\<forall>f \<in> set fevery. sorted_wrt (<) f"
  proof
    fix f assume "f \<in> set fevery"
    with l obtain p where "sa_match str sa p = Some f"
      by (auto simp: list_all2_conv_all_nth in_set_conv_nth)
    with assms(2) show "sorted_wrt (<) f" by (rule sa_match_sorted)
  qed
  from l False have ne: "fevery \<noteq> []" by auto
  then have "fevery ! 0 \<in> set fevery" by simp
  moreover from ne have "set (tl fevery) \<subseteq> set fevery" by (cases fevery) auto
  ultimately have h0: "sorted_wrt (<) (fevery ! 0)"
    and ht: "\<forall>f \<in> set (tl fevery). sorted_wrt (<) f" using all by auto
  show ?thesis unfolding out by (rule foldl_combine_sorted [OF assms(1) h0 ht])
qed

text \<open>
  C4. For strictly increasing position lists \<open>A\<close> and \<open>B\<close> and every \<open>md \<ge> 0\<close>, one
  pass of the two-pointer loop gives a strictly increasing list (sorted, no duplicates),
  for AND and for OR; hence the list \<^verbatim>\<open>grouped_match\<close> returns is strictly increasing
  for a group of either kind, the occurrence lists it folds being strictly increasing
  because the suffix array has no entry twice.
\<close>

theorem combine_strictly_increasing:
  assumes "0 \<le> md"
  shows "(sorted_wrt (<) A \<and> sorted_wrt (<) B \<longrightarrow>
            sorted_wrt (<) (combine AND md A B) \<and> sorted_wrt (<) (combine OR md A B)) \<and>
         (distinct sa \<and> grouped_match str sa data md = Some out \<longrightarrow> sorted_wrt (<) out)"
  using assms grouped_match_sorted [of md sa str data out]
  by (simp add: combine_AND combine_OR and_merge_sorted or_merge_sorted)

theorem combine_strictly_increasing_witness:
  "(0::int) \<le> 5 \<and> sorted_wrt (<) [0, 8 :: int] \<and> sorted_wrt (<) [11 :: int] \<and>
   combine AND 5 [0, 8] [11] = [8] \<and> combine OR 5 [0, 8] [11] = [0, 8] \<and>
   sorted_wrt (<) (combine AND 5 [0, 8] [11]) \<and> sorted_wrt (<) (combine OR 5 [0, 8] [11]) \<and>
   distinct [5, 3, 1, 0, 4, 2 :: int] \<and>
   grouped_match [98, 97, 110, 97, 110, 97] [5, 3, 1, 0, 4, 2]
     \<lparr>gtype = OR, strs = [[98], [110, 97]]\<rparr> 1 = Some [0, 2, 4] \<and>
   sorted_wrt (<) [0, 2, 4 :: int]"
proof -
  have a: "combine AND 5 [0, 8] [11] = [8]" by code_simp
  have b: "combine OR 5 [0, 8] [11] = [0, 8]" by code_simp
  have g: "grouped_match [98, 97, 110, 97, 110, 97] [5, 3, 1, 0, 4, 2]
     \<lparr>gtype = OR, strs = [[98], [110, 97]]\<rparr> 1 = Some [0, 2, 4]" by code_simp
  have d: "distinct [5, 3, 1, 0, 4, 2 :: int]" by simp
  have h: "(0::int) \<le> 5" "(0::int) \<le> 1" by simp_all
  have s: "sorted_wrt (<) [0, 8 :: int] \<and> sorted_wrt (<) [11 :: int]" by simp
  from combine_strictly_increasing [OF h(1), of "[0, 8]" "[11]"] s
  have c1: "sorted_wrt (<) (combine AND 5 [0, 8] [11]) \<and> sorted_wrt (<) (combine OR 5 [0, 8] [11])"
    by blast
  from combine_strictly_increasing [OF h(2), of _ _ "[5, 3, 1, 0, 4, 2]"] d g
  have c2: "sorted_wrt (<) [0, 2, 4 :: int]" by blast
  from a b g d h s c1 c2 show ?thesis by blast
qed

section \<open>Laws of the combinator\<close>

lemma foldl_and_length:
  "length (foldl (combine AND md) acc fs) \<le> length acc \<and>
   (\<forall>f \<in> set fs. length (foldl (combine AND md) acc fs) \<le> length f)"
proof (induction fs arbitrary: acc)
  case Nil
  then show ?case by simp
next
  case (Cons f fs)
  have "length (combine AND md acc f) \<le> min (length acc) (length f)"
    using length_and_merge [of md acc f] by (simp add: combine_AND)
  with Cons [of "combine AND md acc f"] show ?case by auto
qed

text \<open>
  C9. For a non-empty AND group \<open>[P1, ..., Pk]\<close> whose occurrence lists are
  \<open>fevery = [occ(P1), ..., occ(Pk)]\<close>, and every \<open>md\<close>, \<^verbatim>\<open>grouped_match\<close> returns a list that
  is at most as long as each of them, that is at most as long as the shortest.
\<close>

theorem and_output_length:
  assumes "gtype data = AND" and "strs data \<noteq> []"
    and "list_all2 (\<lambda>p occ. sa_match str sa p = Some occ) (strs data) fevery"
  shows "\<exists>out. grouped_match str sa data md = Some out \<and>
           (\<forall>occ \<in> set fevery. length out \<le> length occ)"
proof -
  from assms(3) have fe: "those (map (sa_match str sa) (strs data)) = Some fevery"
    by (simp add: those_map_iff)
  from assms(2,3) have ne: "fevery \<noteq> []" by auto
  let ?out = "foldl (combine AND md) (fevery ! 0) (tl fevery)"
  have g: "grouped_match str sa data md = Some ?out"
    using fe assms(1,2) by (simp add: grouped_match_def)
  have "\<forall>occ \<in> set fevery. length ?out \<le> length occ"
  proof
    fix occ assume "occ \<in> set fevery"
    with ne have "occ = fevery ! 0 \<or> occ \<in> set (tl fevery)" by (cases fevery) auto
    with foldl_and_length [of md "fevery ! 0" "tl fevery"] show "length ?out \<le> length occ"
      by auto
  qed
  with g show ?thesis by blast
qed

theorem and_output_length_witness:
  "gtype \<lparr>gtype = AND, strs = [[97], [110, 97]]\<rparr> = AND \<and>
   strs \<lparr>gtype = AND, strs = [[97], [110, 97]]\<rparr> \<noteq> [] \<and>
   sa_match [98, 97, 110, 97, 110, 97] [5, 3, 1, 0, 4, 2] [97] = Some [1, 3, 5] \<and>
   sa_match [98, 97, 110, 97, 110, 97] [5, 3, 1, 0, 4, 2] [110, 97] = Some [2, 4] \<and>
   (\<exists>out. grouped_match [98, 97, 110, 97, 110, 97] [5, 3, 1, 0, 4, 2]
             \<lparr>gtype = AND, strs = [[97], [110, 97]]\<rparr> 1 = Some out \<and> length out \<le> 2)"
proof -
  let ?d = "\<lparr>gtype = AND, strs = [[97], [110, 97]]\<rparr>"
  have a: "sa_match [98, 97, 110, 97, 110, 97] [5, 3, 1, 0, 4, 2] [97] = Some [1, 3, 5]" by code_simp
  have b: "sa_match [98, 97, 110, 97, 110, 97] [5, 3, 1, 0, 4, 2] [110, 97] = Some [2, 4]" by code_simp
  have l: "list_all2 (\<lambda>p occ. sa_match [98, 97, 110, 97, 110, 97] [5, 3, 1, 0, 4, 2] p = Some occ)
             (strs ?d) [[1, 3, 5], [2, 4]]"
    using a b by simp
  have t: "gtype ?d = AND" and n: "strs ?d \<noteq> []" by simp_all
  from and_output_length [OF t n l, of 1] a b show ?thesis by fastforce
qed

lemma count_list_distinct: "distinct xs \<Longrightarrow> x \<in> set xs \<Longrightarrow> count_list xs x = 1"
  by (induction xs) auto

lemma grouped_match_OR_single:
  "grouped_match str sa \<lparr>gtype = OR, strs = [P]\<rparr> md = sa_match str sa P"
  by (simp add: grouped_match_def split: option.splits)

lemma grouped_match_OR_pair:
  assumes "sa_match str sa P = Some A" and "sa_match str sa Q = Some B"
  shows "grouped_match str sa \<lparr>gtype = OR, strs = [P, Q]\<rparr> md = Some (or_merge md A B)"
  using assms by (simp add: grouped_match_def combine_OR)

text \<open>
  C5, as amended. \<open>evaluate(OR([P]), md)\<close> is \<open>occ(P)\<close>. With \<open>A = occ(P)\<close> and
  \<open>B = occ(Q)\<close>, \<open>evaluate(OR([P, Q]), md)\<close> is a subset of \<open>A \<union> B\<close>; it holds every
  position of one list that has no position of the other list within \<open>md\<close>; every
  position of \<open>A \<union> B\<close> it leaves out lies at most \<open>md\<close> above a position it holds; and,
  for \<open>md \<ge> 0\<close> and a suffix array without repeated entries, a position that is in both
  lists is in the output exactly once.
\<close>

theorem or_combinator_law:
  "grouped_match str sa \<lparr>gtype = OR, strs = [P]\<rparr> md = sa_match str sa P \<and>
   (sa_match str sa P = Some A \<and> sa_match str sa Q = Some B \<longrightarrow>
      (\<exists>out. grouped_match str sa \<lparr>gtype = OR, strs = [P, Q]\<rparr> md = Some out \<and>
         set out \<subseteq> set A \<union> set B \<and>
         (\<forall>p \<in> set A. (\<forall>b \<in> set B. md < \<bar>p - b\<bar>) \<longrightarrow> p \<in> set out) \<and>
         (\<forall>p \<in> set B. (\<forall>a \<in> set A. md < \<bar>a - p\<bar>) \<longrightarrow> p \<in> set out) \<and>
         (\<forall>p \<in> set A \<union> set B. p \<in> set out \<or> (\<exists>q \<in> set out. q < p \<and> p \<le> q + md)) \<and>
         (0 \<le> md \<and> distinct sa \<longrightarrow> (\<forall>p \<in> set A \<inter> set B. count_list out p = 1))))"
proof (intro conjI impI)
  show "grouped_match str sa \<lparr>gtype = OR, strs = [P]\<rparr> md = sa_match str sa P"
    by (rule grouped_match_OR_single)
next
  assume h: "sa_match str sa P = Some A \<and> sa_match str sa Q = Some B"
  then have g: "grouped_match str sa \<lparr>gtype = OR, strs = [P, Q]\<rparr> md = Some (or_merge md A B)"
    by (simp add: grouped_match_OR_pair)
  have 1: "set (or_merge md A B) \<subseteq> set A \<union> set B" by (rule set_or_merge)
  have 2: "\<forall>p \<in> set A. (\<forall>b \<in> set B. md < \<bar>p - b\<bar>) \<longrightarrow> p \<in> set (or_merge md A B)"
    by (simp add: or_merge_isolated_left)
  have 3: "\<forall>p \<in> set B. (\<forall>a \<in> set A. md < \<bar>a - p\<bar>) \<longrightarrow> p \<in> set (or_merge md A B)"
    by (simp add: or_merge_isolated_right)
  have 4: "\<forall>p \<in> set A \<union> set B. p \<in> set (or_merge md A B) \<or>
             (\<exists>q \<in> set (or_merge md A B). q < p \<and> p \<le> q + md)"
    using or_merge_cover by blast
  have 5: "0 \<le> md \<and> distinct sa \<longrightarrow> (\<forall>p \<in> set A \<inter> set B. count_list (or_merge md A B) p = 1)"
  proof (intro impI ballI)
    fix p assume c: "0 \<le> md \<and> distinct sa" and p: "p \<in> set A \<inter> set B"
    from c h have sA: "sorted_wrt (<) A" and sB: "sorted_wrt (<) B"
      by (auto intro: sa_match_sorted)
    with c have "sorted_wrt (<) (or_merge md A B)" by (simp add: or_merge_sorted)
    then have "distinct (or_merge md A B)" by (simp add: strict_sorted_iff)
    moreover from c sA sB p have "p \<in> set (or_merge md A B)" by (simp add: or_merge_common)
    ultimately show "count_list (or_merge md A B) p = 1" by (rule count_list_distinct)
  qed
  from g 1 2 3 4 5
  show "\<exists>out. grouped_match str sa \<lparr>gtype = OR, strs = [P, Q]\<rparr> md = Some out \<and>
         set out \<subseteq> set A \<union> set B \<and>
         (\<forall>p \<in> set A. (\<forall>b \<in> set B. md < \<bar>p - b\<bar>) \<longrightarrow> p \<in> set out) \<and>
         (\<forall>p \<in> set B. (\<forall>a \<in> set A. md < \<bar>a - p\<bar>) \<longrightarrow> p \<in> set out) \<and>
         (\<forall>p \<in> set A \<union> set B. p \<in> set out \<or> (\<exists>q \<in> set out. q < p \<and> p \<le> q + md)) \<and>
         (0 \<le> md \<and> distinct sa \<longrightarrow> (\<forall>p \<in> set A \<inter> set B. count_list out p = 1))"
    by blast
qed

theorem or_combinator_law_witness:
  "sa_match [98, 97, 110, 97, 110, 97] [5, 3, 1, 0, 4, 2] [97, 110] = Some [1, 3] \<and>
   sa_match [98, 97, 110, 97, 110, 97] [5, 3, 1, 0, 4, 2] [97] = Some [1, 3, 5] \<and>
   (0::int) \<le> 1 \<and> distinct [5, 3, 1, 0, 4, 2 :: int] \<and>
   (\<exists>out. grouped_match [98, 97, 110, 97, 110, 97] [5, 3, 1, 0, 4, 2]
             \<lparr>gtype = OR, strs = [[97, 110], [97]]\<rparr> 1 = Some out \<and>
          set out \<subseteq> set [1, 3] \<union> set [1, 3, 5] \<and> 5 \<in> set out \<and> count_list out 3 = 1)"
proof -
  have a: "sa_match [98, 97, 110, 97, 110, 97] [5, 3, 1, 0, 4, 2] [97, 110] = Some [1, 3]" by code_simp
  have b: "sa_match [98, 97, 110, 97, 110, 97] [5, 3, 1, 0, 4, 2] [97] = Some [1, 3, 5]" by code_simp
  have m: "(0::int) \<le> 1" and d: "distinct [5, 3, 1, 0, 4, 2 :: int]" by simp_all
  from or_combinator_law [of "[98, 97, 110, 97, 110, 97]" "[5, 3, 1, 0, 4, 2]" "[97, 110]" 1 "[1, 3]" "[97]" "[1, 3, 5]"] a b
  obtain out where g: "grouped_match [98, 97, 110, 97, 110, 97] [5, 3, 1, 0, 4, 2]
             \<lparr>gtype = OR, strs = [[97, 110], [97]]\<rparr> 1 = Some out"
    and s: "set out \<subseteq> set [1, 3] \<union> set [1, 3, 5]"
    and i: "\<forall>p \<in> set [1, 3, 5]. (\<forall>a \<in> set [1, 3]. 1 < \<bar>a - p\<bar>) \<longrightarrow> p \<in> set out"
    and c: "0 \<le> (1::int) \<and> distinct [5, 3, 1, 0, 4, 2 :: int] \<longrightarrow>
              (\<forall>p \<in> set [1, 3] \<inter> set [1, 3, 5]. count_list out p = 1)"
    by blast
  from i have "5 \<in> set out" by simp
  moreover from c m d have "count_list out 3 = 1" by simp
  ultimately show ?thesis using a b m d g s by blast
qed

text \<open>
  C5 as stated fails: on the text \<open>ab\<close> with \<open>md = 5\<close> the positions \<open>0\<close> of \<open>a\<close> and
  \<open>1\<close> of \<open>b\<close> are paired and only \<open>0\<close> is emitted, so the output is no superset of the
  symmetric difference \<open>{0, 1}\<close>.
\<close>

theorem or_symmetric_difference_counterexample:
  "is_suffix_array [97, 98] [0, 1] \<and>
   sa_match [97, 98] [0, 1] [97] = Some [0] \<and>
   sa_match [97, 98] [0, 1] [98] = Some [1] \<and>
   grouped_match [97, 98] [0, 1] \<lparr>gtype = OR, strs = [[97], [98]]\<rparr> 5 = Some [0] \<and>
   \<not> (set [0] - set [1]) \<union> (set [1] - set [0]) \<subseteq> set [0 :: int]"
  by code_simp

section \<open>The comparison sort builds the suffix array\<close>

lemma suffix_less_lex:
  "n = length s \<Longrightarrow> a + i \<le> n \<Longrightarrow> suffix_less s n a b i \<longleftrightarrow> drop (a + i) s < drop (b + i) s"
proof (induction s n a b i rule: suffix_less.induct)
  case (1 s n a b i)
  note n = "1.prems"(1) and le = "1.prems"(2)
  show ?case
  proof (cases "a + i < n \<and> b + i < n")
    case True
    with n have da: "drop (a + i) s = s ! (a + i) # drop (a + (i + 1)) s"
      and db: "drop (b + i) s = s ! (b + i) # drop (b + (i + 1)) s"
      by (simp_all add: Cons_nth_drop_Suc)
    show ?thesis
    proof (cases "s ! (a + i) = s ! (b + i)")
      case eq: True
      from True have "a + (i + 1) \<le> n" by simp
      with True eq "1.IH" n have "suffix_less s n a b (i + 1) \<longleftrightarrow>
          drop (a + (i + 1)) s < drop (b + (i + 1)) s" by simp
      with True eq show ?thesis
        by (subst suffix_less.simps) (simp add: da db)
    next
      case False
      with True show ?thesis
        by (subst suffix_less.simps) (auto simp: da db)
    qed
  next
    case False
    show ?thesis
    proof (cases "a + i = n")
      case True
      with n have "drop (a + i) s = []" by simp
      moreover have "b + i < n \<longleftrightarrow> drop (b + i) s \<noteq> []" using n by auto
      ultimately show ?thesis using True False
        by (subst suffix_less.simps) (cases "drop (b + i) s", auto)
    next
      case an: False
      with le have lt: "a + i < n" by simp
      with False have "drop (b + i) s = []" using n by simp
      with lt False an show ?thesis
        by (subst suffix_less.simps) simp
    qed
  qed
qed

lemma set_insert_by: "set (insert_by lt x ys) = insert x (set ys)"
  by (induction ys) auto

lemma length_insert_by: "length (insert_by lt x ys) = Suc (length ys)"
  by (induction ys) auto

lemma distinct_insert_by: "distinct (insert_by lt x ys) \<longleftrightarrow> x \<notin> set ys \<and> distinct ys"
  by (induction ys) (auto simp: set_insert_by)

lemma sorted_insert_by:
  fixes f :: "'a \<Rightarrow> 'b::linorder"
  assumes "\<forall>a \<in> insert x (set ys). \<forall>b \<in> insert x (set ys). lt a b \<longleftrightarrow> f a < f b"
    and "sorted (map f ys)"
  shows "sorted (map f (insert_by lt x ys))"
  using assms
proof (induction ys)
  case Nil
  then show ?case by simp
next
  case (Cons y ys)
  show ?case
  proof (cases "lt x y")
    case True
    with Cons.prems have "f x < f y" by simp
    with True Cons.prems(2) show ?thesis by auto
  next
    case False
    with Cons.prems have le: "f y \<le> f x" by auto
    have "sorted (map f (insert_by lt x ys))"
      using Cons.IH Cons.prems by simp
    with False le Cons.prems(2) show ?thesis by (auto simp: set_insert_by)
  qed
qed

lemma std_sort_Cons: "std_sort lt (x # xs) = insert_by lt x (std_sort lt xs)"
  by (simp add: std_sort_def)

lemma set_std_sort: "set (std_sort lt xs) = set xs"
  by (induction xs) (simp_all add: std_sort_def set_insert_by)

lemma length_std_sort: "length (std_sort lt xs) = length xs"
  by (induction xs) (simp_all add: std_sort_def length_insert_by)

lemma distinct_std_sort: "distinct (std_sort lt xs) \<longleftrightarrow> distinct xs"
  by (induction xs) (simp_all add: std_sort_def distinct_insert_by set_std_sort [unfolded std_sort_def])

lemma sorted_std_sort:
  fixes f :: "'a \<Rightarrow> 'b::linorder"
  assumes "\<forall>a \<in> set xs. \<forall>b \<in> set xs. lt a b \<longleftrightarrow> f a < f b"
  shows "sorted (map f (std_sort lt xs))"
  using assms
proof (induction xs)
  case Nil
  then show ?case by (simp add: std_sort_def)
next
  case (Cons x xs)
  then have "sorted (map f (std_sort lt xs))" by simp
  moreover have "\<forall>a \<in> insert x (set (std_sort lt xs)). \<forall>b \<in> insert x (set (std_sort lt xs)).
                   lt a b \<longleftrightarrow> f a < f b"
    using Cons.prems by (simp add: set_std_sort)
  ultimately show ?case unfolding std_sort_Cons by (intro sorted_insert_by)
qed

lemma suffix_inj: "inj_on (\<lambda>a. drop a s) {0..<length s}"
proof (rule inj_onI)
  fix a b assume "a \<in> {0..<length s}" "b \<in> {0..<length s}" "drop a s = drop b s"
  then have "length (drop a s) = length (drop b s)" "a < length s" "b < length s" by simp_all
  then show "a = b" by simp
qed

lemma buildSimple_suffix_array: "is_suffix_array s (buildSimple s (length s))"
proof -
  let ?n = "length s"
  let ?sa = "buildSimple s ?n"
  let ?f = "\<lambda>a. drop a s"
  have set: "set ?sa = {0..<?n}" by (simp add: buildSimple_def set_std_sort)
  have len: "length ?sa = ?n" by (simp add: buildSimple_def length_std_sort)
  have dist: "distinct ?sa" by (simp add: buildSimple_def distinct_std_sort)
  have "\<forall>a \<in> set [0..<?n]. \<forall>b \<in> set [0..<?n]. suffix_less s ?n a b 0 \<longleftrightarrow> ?f a < ?f b"
    using suffix_less_lex [of ?n s _ 0] by simp
  then have "sorted (map ?f ?sa)" unfolding buildSimple_def by (rule sorted_std_sort)
  moreover have "distinct (map ?f ?sa)"
    using dist suffix_inj [of s] set by (simp add: distinct_map)
  ultimately have "sorted_wrt (<) (map ?f ?sa)" by (simp add: strict_sorted_iff)
  then have "sorted_wrt (\<lambda>a b. ?f a < ?f b) ?sa" by (simp add: sorted_wrt_map)
  with set len show ?thesis by (simp add: is_suffix_array_def)
qed

lemma suffix_array_unique:
  assumes "is_suffix_array s sa" and "is_suffix_array s sa'"
  shows "sa = sa'"
proof -
  let ?f = "\<lambda>a. drop a s"
  from assms have "sorted_wrt (<) (map ?f sa)" "sorted_wrt (<) (map ?f sa')"
    by (simp_all add: is_suffix_array_def sorted_wrt_map)
  moreover from assms have "set (map ?f sa) = set (map ?f sa')"
    by (simp add: is_suffix_array_def)
  ultimately have "map ?f sa = map ?f sa'"
    by (simp add: strict_sorted_iff sorted_distinct_set_unique)
  moreover from assms have "set sa \<union> set sa' \<subseteq> {0..<length s}" by (simp add: is_suffix_array_def)
  then have "inj_on ?f (set sa \<union> set sa')" by (rule inj_on_subset [OF suffix_inj])
  ultimately show ?thesis by (simp add: inj_on_map_eq_map)
qed

text \<open>
  What \<^verbatim>\<open>std::sort\<close> promises of its result, a permutation of the input in which no
  later element is less than an earlier one under the comparator, is met by one list
  only: the one \<open>buildSimple\<close> returns here.
\<close>

lemma sort_postcondition_unique:
  assumes len: "length sa = length s" and set: "set sa = {0..<length s}"
    and post: "\<forall>i j. i < j \<and> j < length s \<longrightarrow> \<not> suffix_less s (length s) (sa ! j) (sa ! i) 0"
  shows "sa = buildSimple s (length s)"
proof -
  from len set have dist: "distinct sa" by (intro card_distinct) simp
  have "sorted_wrt (\<lambda>a b. drop a s < drop b s) sa"
    unfolding sorted_wrt_iff_nth_less
  proof (intro allI impI)
    fix i j assume ij: "i < j" and j: "j < length sa"
    with len set have a: "sa ! i < length s" and b: "sa ! j < length s"
      using nth_mem [of i sa] nth_mem [of j sa] by auto
    from ij j len post have "\<not> suffix_less s (length s) (sa ! j) (sa ! i) 0" by simp
    with suffix_less_lex [of "length s" s "sa ! j" 0 "sa ! i"] b
    have "\<not> drop (sa ! j) s < drop (sa ! i) s" by simp
    moreover from ij j dist have "sa ! i \<noteq> sa ! j" by (simp add: nth_eq_iff_index_eq)
    with a b have "drop (sa ! i) s \<noteq> drop (sa ! j) s"
      using suffix_inj [of s] by (auto simp: inj_on_def)
    ultimately show "drop (sa ! i) s < drop (sa ! j) s" by simp
  qed
  with len set have "is_suffix_array s sa" by (simp add: is_suffix_array_def)
  then show ?thesis using buildSimple_suffix_array by (rule suffix_array_unique)
qed

section \<open>The induced-sorting builder\<close>

text \<open>
  C3 at its failing inputs. On \<open>ab\<close> no position is left-most S-type, nothing is
  placed and \<^verbatim>\<open>buildSAIS\<close> leaves every slot at \<open>- 1\<close>; on \<open>banana\<close> its result is not
  even a permutation. \<^verbatim>\<open>buildSimple\<close> gives the suffix arrays.
\<close>

theorem buildSAIS_differs:
  "sais_suffix_array [97, 98] = Some [- 1, - 1] \<and> buildSimple [97, 98] 2 = [0, 1] \<and>
   sais_suffix_array [98, 97, 110, 97, 110, 97] = Some [1, 1, 3, 0, 2, 4] \<and>
   buildSimple [98, 97, 110, 97, 110, 97] 6 = [5, 3, 1, 0, 4, 2]"
  by code_simp

section \<open>The LCP array\<close>

subsection \<open>The rank array\<close>

lemma rd_Some [simp]: "i < length xs \<Longrightarrow> rd xs i = Some (xs ! i)"
  by (simp add: rd_def)

lemma wr_Some [simp]: "i < length xs \<Longrightarrow> wr xs i v = Some (xs[i := v])"
  by (simp add: wr_def)

lemma rank_loop_inv:
  "length sa = n \<Longrightarrow> \<forall>k < n. sa ! k < n \<Longrightarrow> distinct sa \<Longrightarrow> length rank = n \<Longrightarrow>
         \<exists>r. rank_loop sa n rank i = Some r \<and> length r = n \<and>
             (\<forall>k. i \<le> k \<and> k < n \<longrightarrow> r ! (sa ! k) = k) \<and>
             (\<forall>p < n. p \<notin> (\<lambda>k. sa ! k) ` {i..<n} \<longrightarrow> r ! p = rank ! p)"
proof (induction sa n rank i rule: rank_loop.induct)
  case (1 sa n rank i)
  note len = "1.prems"(1,4) and rng = "1.prems"(2) and dist = "1.prems"(3)
  show ?case
  proof (cases "i < n")
    case True
    let ?rank = "rank[sa ! i := i]"
    from True len rng have in_rng: "sa ! i < length rank" by simp
    from True len have rdi: "rd sa i = Some (sa ! i)" by simp
    from in_rng have wri: "wr rank (sa ! i) i = Some ?rank" by simp
    have "\<exists>r. rank_loop sa n ?rank (i + 1) = Some r \<and> length r = n \<and>
             (\<forall>k. i + 1 \<le> k \<and> k < n \<longrightarrow> r ! (sa ! k) = k) \<and>
             (\<forall>p < n. p \<notin> (\<lambda>k. sa ! k) ` {i + 1..<n} \<longrightarrow> r ! p = ?rank ! p)"
      using "1.IH" [OF True rdi wri len(1) rng dist] len by simp
    then obtain r where r: "rank_loop sa n ?rank (i + 1) = Some r" "length r = n"
      and a: "\<forall>k. i + 1 \<le> k \<and> k < n \<longrightarrow> r ! (sa ! k) = k"
      and b: "\<forall>p < n. p \<notin> (\<lambda>k. sa ! k) ` {i + 1..<n} \<longrightarrow> r ! p = ?rank ! p"
      by blast
    have eq: "rank_loop sa n rank i = Some r"
      using True rdi wri r(1) by (subst rank_loop.simps) simp
    have "sa ! i \<notin> (\<lambda>k. sa ! k) ` {i + 1..<n}"
    proof
      assume "sa ! i \<in> (\<lambda>k. sa ! k) ` {i + 1..<n}"
      then obtain k where "i + 1 \<le> k" "k < n" "sa ! i = sa ! k" by auto
      with dist len True show False by (simp add: nth_eq_iff_index_eq)
    qed
    with b True rng in_rng len have ri: "r ! (sa ! i) = i" by simp
    have a': "\<forall>k. i \<le> k \<and> k < n \<longrightarrow> r ! (sa ! k) = k"
    proof (intro allI impI)
      fix k assume k: "i \<le> k \<and> k < n"
      show "r ! (sa ! k) = k"
      proof (cases "k = i")
        case True
        with ri show ?thesis by simp
      next
        case False
        with k a show ?thesis by simp
      qed
    qed
    have b': "\<forall>p < n. p \<notin> (\<lambda>k. sa ! k) ` {i..<n} \<longrightarrow> r ! p = rank ! p"
    proof (intro allI impI)
      fix p assume p: "p < n" and ni: "p \<notin> (\<lambda>k. sa ! k) ` {i..<n}"
      from ni True have "p \<noteq> sa ! i" by auto
      moreover from ni have "p \<notin> (\<lambda>k. sa ! k) ` {i + 1..<n}" by auto
      ultimately show "r ! p = rank ! p" using b p by simp
    qed
    from eq r(2) a' b' show ?thesis by blast
  next
    case False
    then have "rank_loop sa n rank i = Some rank" by (subst rank_loop.simps) simp
    with False len show ?thesis by auto
  qed
qed

lemma suffix_array_distinct: "is_suffix_array s sa \<Longrightarrow> distinct sa"
  unfolding is_suffix_array_def by (intro card_distinct) simp

lemma suffix_array_nth: "is_suffix_array s sa \<Longrightarrow> k < length s \<Longrightarrow> sa ! k < length s"
  using nth_mem [of k sa] by (simp add: is_suffix_array_def)

lemma rank_loop_rank:
  assumes "is_suffix_array s sa"
  shows "\<exists>r. rank_loop sa (length sa) (replicate (length sa) 0) 0 = Some r \<and> is_rank sa r"
proof -
  from assms have len: "length sa = length s" by (simp add: is_suffix_array_def)
  have "\<forall>k < length sa. sa ! k < length sa"
    using suffix_array_nth [OF assms] len by simp
  from rank_loop_inv [OF refl this suffix_array_distinct [OF assms], of "replicate (length sa) 0" 0]
  obtain r where "rank_loop sa (length sa) (replicate (length sa) 0) 0 = Some r"
    and "length r = length sa" and "\<forall>k. 0 \<le> k \<and> k < length sa \<longrightarrow> r ! (sa ! k) = k"
    by auto
  then show ?thesis by (auto simp: is_rank_def)
qed

lemma is_rank_inverse:
  assumes "is_suffix_array s sa" and "is_rank sa rank" and "p < length s"
  shows "rank ! p < length s" and "sa ! (rank ! p) = p"
proof -
  from assms(1) have len: "length sa = length s" and set: "set sa = {0..<length s}"
    by (simp_all add: is_suffix_array_def)
  from assms(3) set have "p \<in> set sa" by simp
  then obtain k where k: "k < length sa" "sa ! k = p" by (auto simp: in_set_conv_nth)
  with assms(2) have "rank ! p = k" by (auto simp: is_rank_def)
  with k len show "rank ! p < length s" and "sa ! (rank ! p) = p" by simp_all
qed

lemma is_rank_inj:
  assumes "is_suffix_array s sa" and "is_rank sa rank" and "p < length s" and "q < length s"
    and "rank ! p = rank ! q"
  shows "p = q"
  using is_rank_inverse(2) [OF assms(1,2,3)] is_rank_inverse(2) [OF assms(1,2,4)] assms(5)
  by metis

lemma suffix_array_mono:
  assumes "is_suffix_array s sa" and "p < q" and "q < length s"
  shows "drop (sa ! p) s < drop (sa ! q) s"
  using assms by (simp add: is_suffix_array_def sorted_wrt_iff_nth_less)

lemma rank_less_iff:
  assumes "is_suffix_array s sa" and "is_rank sa rank" and "a < length s" and "b < length s"
  shows "rank ! a < rank ! b \<longleftrightarrow> drop a s < drop b s"
proof
  assume "rank ! a < rank ! b"
  with suffix_array_mono [OF assms(1), of "rank ! a" "rank ! b"]
    is_rank_inverse [OF assms(1,2,3)] is_rank_inverse [OF assms(1,2,4)]
  show "drop a s < drop b s" by simp
next
  assume lt: "drop a s < drop b s"
  show "rank ! a < rank ! b"
  proof (rule ccontr)
    assume "\<not> rank ! a < rank ! b"
    then have "rank ! b < rank ! a \<or> rank ! b = rank ! a" by auto
    then show False
    proof
      assume "rank ! b < rank ! a"
      with suffix_array_mono [OF assms(1), of "rank ! b" "rank ! a"]
        is_rank_inverse [OF assms(1,2,3)] is_rank_inverse [OF assms(1,2,4)]
      have "drop b s < drop a s" by simp
      with lt show False by simp
    next
      assume "rank ! b = rank ! a"
      with is_rank_inj [OF assms(1,2,4,3)] have "b = a" by simp
      with lt show False by simp
    qed
  qed
qed

subsection \<open>Common prefixes\<close>

lemma lcp_nth:
  "k < length (longest_common_prefix xs ys) \<Longrightarrow> k < length xs \<and> k < length ys \<and> xs ! k = ys ! k"
proof (induction xs ys arbitrary: k rule: longest_common_prefix.induct)
  case (1 x xs y ys)
  then show ?case by (cases k) (auto split: if_splits)
qed simp_all

lemma lcp_stop:
  "\<not> (length (longest_common_prefix xs ys) < length xs \<and>
      length (longest_common_prefix xs ys) < length ys \<and>
      xs ! length (longest_common_prefix xs ys) = ys ! length (longest_common_prefix xs ys))"
  by (induction xs ys rule: longest_common_prefix.induct) auto

lemma lcp_commute:
  "length (longest_common_prefix xs ys) = length (longest_common_prefix ys xs)"
  by (induction xs ys rule: longest_common_prefix.induct) auto

lemma lcp_sandwich:
  fixes xs ys zs :: "'a::linorder list"
  shows "xs \<le> zs \<Longrightarrow> zs \<le> ys \<Longrightarrow>
         length (longest_common_prefix xs ys) \<le> length (longest_common_prefix zs ys)"
proof (induction xs arbitrary: ys zs)
  case Nil
  then show ?case by simp
next
  case (Cons x xs)
  from Cons.prems(1) obtain z zs' where zs: "zs = z # zs'" by (cases zs) auto
  with Cons.prems(2) obtain y ys' where ys: "ys = y # ys'" by (cases ys) auto
  show ?case
  proof (cases "x = y")
    case True
    with Cons.prems zs ys have "z = x" and "xs \<le> zs'" and "zs' \<le> ys'" by auto
    with Cons.IH [of zs' ys'] True zs ys show ?thesis by simp
  next
    case False
    with ys show ?thesis by simp
  qed
qed

lemma lcp_extend_correct:
  assumes "n = length s"
  shows "h \<le> length (longest_common_prefix (drop i s) (drop j s)) \<Longrightarrow>
         lcp_extend s n i j h = Some (length (longest_common_prefix (drop i s) (drop j s)))"
  using assms
proof (induction s n i j h rule: lcp_extend.induct)
  case (1 t n i j h)
  let ?L = "length (longest_common_prefix (drop i t) (drop j t))"
  note le = "1.prems"(1) and n = "1.prems"(2)
  show ?case
  proof (cases "i + h < n \<and> j + h < n")
    case True
    with n have rdi: "rd t (i + h) = Some (t ! (i + h))"
      and rdj: "rd t (j + h) = Some (t ! (j + h))" by simp_all
    show ?thesis
    proof (cases "t ! (i + h) = t ! (j + h)")
      case eq: True
      have "h \<noteq> ?L"
      proof
        assume h: "h = ?L"
        from True n have "h < length (drop i t)" "h < length (drop j t)" by auto
        moreover from True n eq have "drop i t ! h = drop j t ! h" by simp
        ultimately show False using lcp_stop [of "drop i t" "drop j t"] unfolding h by blast
      qed
      with le have "h + 1 \<le> ?L" by simp
      from "1.IH" [OF True rdi rdj eq this n] have "lcp_extend t n i j (h + 1) = Some ?L" .
      with True eq rdi rdj show ?thesis by (subst lcp_extend.simps) simp
    next
      case False
      have "\<not> h < ?L"
      proof
        assume "h < ?L"
        from lcp_nth [OF this] True n False show False by simp
      qed
      with le have "h = ?L" by simp
      with True False rdi rdj show ?thesis by (subst lcp_extend.simps) simp
    qed
  next
    case False
    have "\<not> h < ?L"
    proof
      assume "h < ?L"
      from lcp_nth [OF this] False n show False by auto
    qed
    with le have "h = ?L" by simp
    with False show ?thesis by (subst lcp_extend.simps) auto
  qed
qed

subsection \<open>The loop of Kasai's algorithm\<close>

lemma kasai_step:
  assumes SA: "is_suffix_array s sa" and R: "is_rank sa rank"
    and i: "i + 1 < length s" and ri: "0 < rank ! i" and L: "2 \<le> pred_lcp s sa rank i"
  shows "0 < rank ! (i + 1) \<and> pred_lcp s sa rank i - 1 \<le> pred_lcp s sa rank (i + 1)"
proof -
  let ?n = "length s"
  let ?j = "sa ! (rank ! i - 1)"
  let ?k = "sa ! (rank ! (i + 1) - 1)"
  from i have i_lt: "i < ?n" by simp
  from is_rank_inverse [OF SA R i_lt] have rin: "rank ! i < ?n" and sri: "sa ! (rank ! i) = i"
    by simp_all
  from rin have j_lt: "?j < ?n" by (intro suffix_array_nth [OF SA]) simp
  have lcp0: "0 < length (longest_common_prefix (drop i s) (drop ?j s))"
    and lcp1: "1 < length (longest_common_prefix (drop i s) (drop ?j s))"
    using L unfolding pred_lcp_def by linarith+
  from lcp_nth [OF lcp0] i_lt j_lt have h0: "s ! i = s ! ?j" by auto
  from lcp_nth [OF lcp1] have j1: "?j + 1 < ?n" by auto
  have di: "drop i s = s ! i # drop (i + 1) s" using i_lt by (simp add: Cons_nth_drop_Suc)
  have dj: "drop ?j s = s ! ?j # drop (?j + 1) s" using j_lt by (simp add: Cons_nth_drop_Suc)
  from suffix_array_mono [OF SA, of "rank ! i - 1" "rank ! i"] ri rin sri
  have "drop ?j s < drop i s" by simp
  then have lt1: "drop (?j + 1) s < drop (i + 1) s"
    by (subst (asm) di, subst (asm) dj) (simp add: h0)
  with rank_less_iff [OF SA R j1 i] have rlt: "rank ! (?j + 1) < rank ! (i + 1)" by simp
  then have pos: "0 < rank ! (i + 1)" by simp
  from is_rank_inverse [OF SA R i] have ri1: "rank ! (i + 1) < ?n"
    and sri1: "sa ! (rank ! (i + 1)) = i + 1" by simp_all
  from is_rank_inverse [OF SA R j1] have srj1: "sa ! (rank ! (?j + 1)) = ?j + 1" by simp
  have le: "drop (?j + 1) s \<le> drop ?k s"
  proof (cases "rank ! (?j + 1) = rank ! (i + 1) - 1")
    case True
    with srj1 show ?thesis by simp
  next
    case False
    with rlt have "rank ! (?j + 1) < rank ! (i + 1) - 1" by simp
    moreover from ri1 have "rank ! (i + 1) - 1 < ?n" by simp
    ultimately have "drop (sa ! (rank ! (?j + 1))) s < drop ?k s"
      by (rule suffix_array_mono [OF SA])
    with srj1 show ?thesis by simp
  qed
  from suffix_array_mono [OF SA, of "rank ! (i + 1) - 1" "rank ! (i + 1)"] pos ri1 sri1
  have "drop ?k s \<le> drop (i + 1) s" by simp
  from lcp_sandwich [OF le this]
  have "length (longest_common_prefix (drop (?j + 1) s) (drop (i + 1) s)) \<le>
        length (longest_common_prefix (drop ?k s) (drop (i + 1) s))" .
  then have "length (longest_common_prefix (drop (i + 1) s) (drop (?j + 1) s)) \<le>
        pred_lcp s sa rank (i + 1)"
    unfolding pred_lcp_def
    using lcp_commute [of "drop (i + 1) s" "drop (?j + 1) s"]
      lcp_commute [of "drop (i + 1) s" "drop ?k s"] by linarith
  moreover have "pred_lcp s sa rank i =
      Suc (length (longest_common_prefix (drop (i + 1) s) (drop (?j + 1) s)))"
    unfolding pred_lcp_def by (subst di, subst dj) (simp add: h0)
  ultimately show ?thesis using pos by simp
qed

lemma kasai_loop_inv:
  "n = length s \<Longrightarrow> is_suffix_array s sa \<Longrightarrow> is_rank sa rank \<Longrightarrow> length lcp = n \<Longrightarrow>
   kasai_pre s sa rank i h \<Longrightarrow>
   \<exists>lcp'. kasai_loop s sa rank n lcp i h = Some lcp' \<and> length lcp' = n \<and>
     (\<forall>k. i \<le> k \<and> k < n \<and> 0 < rank ! k \<longrightarrow> lcp' ! (rank ! k) = pred_lcp s sa rank k) \<and>
     (\<forall>q < n. (\<forall>k. i \<le> k \<and> k < n \<and> 0 < rank ! k \<longrightarrow> rank ! k \<noteq> q) \<longrightarrow> lcp' ! q = lcp ! q)"
proof (induction s sa rank n lcp i h rule: kasai_loop.induct)
  case (1 s sa rank n lcp i h)
  note n = "1.prems"(1) and SA = "1.prems"(2) and R = "1.prems"(3) and len = "1.prems"(4)
    and pre = "1.prems"(5)
  from SA have lsa: "length sa = length s" by (simp add: is_suffix_array_def)
  from R lsa have lrank: "length rank = length s" by (simp add: is_rank_def)
  show ?case
  proof (cases "i < n")
    case False
    then have "kasai_loop s sa rank n lcp i h = Some lcp" by (subst kasai_loop.simps) simp
    with False len show ?thesis by auto
  next
    case True
    with n lrank have rdr: "rd rank i = Some (rank ! i)" by simp
    from True n have i_lt: "i < length s" by simp
    from is_rank_inverse [OF SA R i_lt] have rin: "rank ! i < length s" by simp
    show ?thesis
    proof (cases "0 < rank ! i")
      case pos: True
      let ?j = "sa ! (rank ! i - 1)"
      let ?L = "pred_lcp s sa rank i"
      let ?h = "if 0 < ?L then ?L - 1 else ?L"
      let ?lcp = "lcp[rank ! i := ?L]"
      from rin lsa have rds: "rd sa (rank ! i - 1) = Some ?j" by simp
      from pre i_lt pos have "h \<le> ?L" by (simp add: kasai_pre_def)
      then have ext: "lcp_extend s n i ?j h = Some ?L"
        unfolding pred_lcp_def by (intro lcp_extend_correct [OF n])
      from rin len n have wrl: "wr lcp (rank ! i) ?L = Some ?lcp" by simp
      have pre': "kasai_pre s sa rank (i + 1) ?h"
        unfolding kasai_pre_def
      proof (intro impI)
        assume i1: "i + 1 < length s"
        show "if 0 < rank ! (i + 1) then ?h \<le> pred_lcp s sa rank (i + 1) else ?h = 0"
        proof (cases "2 \<le> ?L")
          case True
          from kasai_step [OF SA R i1 pos True] True show ?thesis by simp
        next
          case False
          then show ?thesis by auto
        qed
      qed
      from len have len': "length ?lcp = n" by simp
      from "1.IH"(1) [OF True rdr pos rds ext wrl n SA R len' pre']
      obtain lcp' where r: "kasai_loop s sa rank n ?lcp (i + 1) ?h = Some lcp'" "length lcp' = n"
        and a: "\<forall>k. i + 1 \<le> k \<and> k < n \<and> 0 < rank ! k \<longrightarrow> lcp' ! (rank ! k) = pred_lcp s sa rank k"
        and b: "\<forall>q < n. (\<forall>k. i + 1 \<le> k \<and> k < n \<and> 0 < rank ! k \<longrightarrow> rank ! k \<noteq> q) \<longrightarrow>
                   lcp' ! q = ?lcp ! q"
        by blast
      have eq: "kasai_loop s sa rank n lcp i h = Some lcp'"
        using True rdr pos rds ext wrl r(1) by (subst kasai_loop.simps) simp
      have "\<forall>k. i + 1 \<le> k \<and> k < n \<and> 0 < rank ! k \<longrightarrow> rank ! k \<noteq> rank ! i"
      proof (intro allI impI)
        fix k assume k: "i + 1 \<le> k \<and> k < n \<and> 0 < rank ! k"
        show "rank ! k \<noteq> rank ! i"
        proof
          assume "rank ! k = rank ! i"
          from is_rank_inj [OF SA R _ i_lt this] k n show False by simp
        qed
      qed
      with b rin n len have here: "lcp' ! (rank ! i) = ?L" by simp
      have a': "\<forall>k. i \<le> k \<and> k < n \<and> 0 < rank ! k \<longrightarrow> lcp' ! (rank ! k) = pred_lcp s sa rank k"
      proof (intro allI impI)
        fix k assume k: "i \<le> k \<and> k < n \<and> 0 < rank ! k"
        show "lcp' ! (rank ! k) = pred_lcp s sa rank k"
        proof (cases "k = i")
          case True
          with here show ?thesis by simp
        next
          case False
          with k a show ?thesis by simp
        qed
      qed
      have b': "\<forall>q < n. (\<forall>k. i \<le> k \<and> k < n \<and> 0 < rank ! k \<longrightarrow> rank ! k \<noteq> q) \<longrightarrow> lcp' ! q = lcp ! q"
      proof (intro allI impI)
        fix q assume q: "q < n" and nq: "\<forall>k. i \<le> k \<and> k < n \<and> 0 < rank ! k \<longrightarrow> rank ! k \<noteq> q"
        from nq True pos have "rank ! i \<noteq> q" by blast
        moreover from nq have "\<forall>k. i + 1 \<le> k \<and> k < n \<and> 0 < rank ! k \<longrightarrow> rank ! k \<noteq> q" by simp
        ultimately show "lcp' ! q = lcp ! q" using b q by simp
      qed
      from eq r(2) a' b' show ?thesis by blast
    next
      case zero: False
      with pre i_lt have h0: "h = 0" by (simp add: kasai_pre_def)
      have pre': "kasai_pre s sa rank (i + 1) h"
        unfolding h0 kasai_pre_def by simp
      from "1.IH"(2) [OF True rdr zero n SA R len pre']
      obtain lcp' where r: "kasai_loop s sa rank n lcp (i + 1) h = Some lcp'" "length lcp' = n"
        and a: "\<forall>k. i + 1 \<le> k \<and> k < n \<and> 0 < rank ! k \<longrightarrow> lcp' ! (rank ! k) = pred_lcp s sa rank k"
        and b: "\<forall>q < n. (\<forall>k. i + 1 \<le> k \<and> k < n \<and> 0 < rank ! k \<longrightarrow> rank ! k \<noteq> q) \<longrightarrow>
                   lcp' ! q = lcp ! q"
        by blast
      have eq: "kasai_loop s sa rank n lcp i h = Some lcp'"
        using True rdr zero r(1) by (subst kasai_loop.simps) simp
      have ge: "i \<le> k \<and> k < n \<and> 0 < rank ! k \<longleftrightarrow> i + 1 \<le> k \<and> k < n \<and> 0 < rank ! k" for k
        using zero by (cases "k = i") auto
      from eq r(2) a b show ?thesis unfolding ge by blast
    qed
  qed
qed

lemma resize_Nil: "resize [] n x = replicate n x"
  by (simp add: resize_def)

lemma computeLCP_correct:
  assumes SA: "is_suffix_array (m_text S) (m_sa S)" and fresh: "m_lcp S = []"
  shows "\<exists>lcp. computeLCP S = Some (S\<lparr>m_lcp := lcp\<rparr>) \<and> length lcp = length (m_text S) \<and>
           (0 < length (m_text S) \<longrightarrow> lcp ! 0 = 0) \<and>
           (\<forall>i. 1 \<le> i \<and> i < length (m_text S) \<longrightarrow>
              lcp ! i = length (longest_common_prefix (drop (m_sa S ! (i - 1)) (m_text S))
                                                      (drop (m_sa S ! i) (m_text S))))"
proof -
  let ?s = "m_text S" and ?sa = "m_sa S"
  let ?n = "length ?s"
  from SA have lsa: "length ?sa = ?n" by (simp add: is_suffix_array_def)
  from rank_loop_rank [OF SA] obtain rank
    where rl: "rank_loop ?sa (length ?sa) (replicate (length ?sa) 0) 0 = Some rank"
      and R: "is_rank ?sa rank" by blast
  have pre: "kasai_pre ?s ?sa rank 0 0" by (simp add: kasai_pre_def)
  from kasai_loop_inv [OF refl SA R _ pre, of "replicate ?n 0"]
  obtain lcp where kl: "kasai_loop ?s ?sa rank ?n (replicate ?n 0) 0 0 = Some lcp"
    and len: "length lcp = ?n"
    and a: "\<forall>k. 0 \<le> k \<and> k < ?n \<and> 0 < rank ! k \<longrightarrow> lcp ! (rank ! k) = pred_lcp ?s ?sa rank k"
    and b: "\<forall>q < ?n. (\<forall>k. 0 \<le> k \<and> k < ?n \<and> 0 < rank ! k \<longrightarrow> rank ! k \<noteq> q) \<longrightarrow>
               lcp ! q = replicate ?n 0 ! q"
    by auto
  have eq: "computeLCP S = Some (S\<lparr>m_lcp := lcp\<rparr>)"
    using rl kl lsa fresh by (simp add: computeLCP_def resize_Nil)
  have z: "0 < ?n \<longrightarrow> lcp ! 0 = 0"
  proof
    assume "0 < ?n"
    with b have "lcp ! 0 = replicate ?n 0 ! 0" by simp
    with \<open>0 < ?n\<close> show "lcp ! 0 = 0" by simp
  qed
  have c: "\<forall>i. 1 \<le> i \<and> i < ?n \<longrightarrow>
              lcp ! i = length (longest_common_prefix (drop (?sa ! (i - 1)) ?s) (drop (?sa ! i) ?s))"
  proof (intro allI impI)
    fix i assume i: "1 \<le> i \<and> i < ?n"
    let ?k = "?sa ! i"
    from i have k: "?k < ?n" by (intro suffix_array_nth [OF SA]) simp
    from R i lsa have rk: "rank ! ?k = i" by (simp add: is_rank_def)
    with a k i have "lcp ! i = pred_lcp ?s ?sa rank ?k" by force
    then show "lcp ! i = length (longest_common_prefix (drop (?sa ! (i - 1)) ?s) (drop (?sa ! i) ?s))"
      by (simp add: pred_lcp_def rk lcp_commute [of "drop (?sa ! i) ?s"])
  qed
  from eq len z c show ?thesis by blast
qed

section \<open>The matcher on the object\<close>

lemma take_lex_mono:
  fixes xs ys :: "'a::linorder list"
  shows "xs \<le> ys \<Longrightarrow> take k xs \<le> take k ys"
proof (induction k arbitrary: xs ys)
  case 0
  then show ?case by simp
next
  case (Suc k)
  show ?case
  proof (cases xs)
    case Nil
    then show ?thesis by simp
  next
    case (Cons x xs')
    with Suc.prems obtain y ys' where ys: "ys = y # ys'" by (cases ys) auto
    with Cons Suc.prems have "x < y \<or> x = y \<and> xs' \<le> ys'" by simp
    with Suc.IH [of xs' ys'] Cons ys show ?thesis by auto
  qed
qed

lemma comparePattern_loop_lex:
  "m_n S = length (m_text S) \<Longrightarrow> i \<le> length pattern \<Longrightarrow>
   comparePattern_loop S pattern pos i =
     (if take (length pattern - i) (drop (pos + i) (m_text S)) < drop i pattern then 1
      else if take (length pattern - i) (drop (pos + i) (m_text S)) = drop i pattern then 0
      else - 1)"
proof (induction S pattern pos i rule: comparePattern_loop.induct)
  case (1 S pattern pos i)
  note n = "1.prems"(1) and le = "1.prems"(2)
  let ?t = "m_text S"
  show ?case
  proof (cases "i < length pattern")
    case False
    with le have "i = length pattern" by simp
    then show ?thesis by (subst comparePattern_loop.simps) simp
  next
    case True
    then have dp: "drop i pattern = pattern ! i # drop (i + 1) pattern"
      by (simp add: Cons_nth_drop_Suc)
    from True obtain k where k: "length pattern - i = Suc k" "length pattern - Suc i = k"
      by (cases "length pattern - i") auto
    show ?thesis
    proof (cases "pos + i \<ge> m_n S")
      case out: True
      with n have "drop (pos + i) ?t = []" by simp
      with True out dp show ?thesis by (subst comparePattern_loop.simps) simp
    next
      case inside: False
      with n have dt: "drop (pos + i) ?t = ?t ! (pos + i) # drop (pos + (i + 1)) ?t"
        by (simp add: Cons_nth_drop_Suc)
      show ?thesis
      proof (cases "pattern ! i = ?t ! (pos + i)")
        case eq: True
        from True have "i + 1 \<le> length pattern" by simp
        from "1.IH" [OF True inside _ _ n this] eq
        have "comparePattern_loop S pattern pos (i + 1) =
          (if take (length pattern - (i + 1)) (drop (pos + (i + 1)) ?t) < drop (i + 1) pattern then 1
           else if take (length pattern - (i + 1)) (drop (pos + (i + 1)) ?t) = drop (i + 1) pattern then 0
           else - 1)" by simp
        with True inside eq show ?thesis
          by (subst comparePattern_loop.simps) (simp add: dp dt k)
      next
        case False
        with True inside show ?thesis
          by (subst comparePattern_loop.simps) (auto simp: dp dt k)
      qed
    qed
  qed
qed

lemma comparePattern_lex:
  assumes "m_n S = length (m_text S)"
  shows "comparePattern S pattern pos =
     (if take (length pattern) (drop pos (m_text S)) < pattern then 1
      else if take (length pattern) (drop pos (m_text S)) = pattern then 0 else - 1)"
  using comparePattern_loop_lex [OF assms, of 0 pattern pos] by (simp add: comparePattern_def)

lemma comparePattern_mono:
  assumes "m_n S = length (m_text S)" and "drop a (m_text S) \<le> drop b (m_text S)"
  shows "comparePattern S pattern b \<le> comparePattern S pattern a"
proof -
  from take_lex_mono [OF assms(2), of "length pattern"]
  have "take (length pattern) (drop a (m_text S)) \<le> take (length pattern) (drop b (m_text S))" .
  then show ?thesis
    unfolding comparePattern_lex [OF assms(1)] by auto
qed

lemma comparePattern_sa_mono:
  assumes "m_n S = length (m_text S)" and "is_suffix_array (m_text S) (m_sa S)"
    and "p \<le> q" and "q < length (m_sa S)"
  shows "comparePattern S pattern (m_sa S ! q) \<le> comparePattern S pattern (m_sa S ! p)"
proof (cases "p = q")
  case True
  then show ?thesis by simp
next
  case False
  with assms(3) have "p < q" by simp
  moreover from assms(2,4) have "q < length (m_text S)" by (simp add: is_suffix_array_def)
  ultimately have "drop (m_sa S ! p) (m_text S) < drop (m_sa S ! q) (m_text S)"
    by (rule suffix_array_mono [OF assms(2)])
  then have "drop (m_sa S ! p) (m_text S) \<le> drop (m_sa S ! q) (m_text S)" by simp
  with assms(1) show ?thesis by (rule comparePattern_mono)
qed

lemma findLeft_loop_partition:
  "m_n S = length (m_text S) \<Longrightarrow> is_suffix_array (m_text S) (m_sa S) \<Longrightarrow>
   left \<le> right \<Longrightarrow> right \<le> length (m_sa S) \<Longrightarrow>
   (\<forall>k < left. 0 < comparePattern S pattern (m_sa S ! k)) \<Longrightarrow>
   (\<forall>k. right \<le> k \<and> k < length (m_sa S) \<longrightarrow> \<not> 0 < comparePattern S pattern (m_sa S ! k)) \<Longrightarrow>
   left \<le> findLeft_loop S pattern left right \<and> findLeft_loop S pattern left right \<le> right \<and>
   (\<forall>k < findLeft_loop S pattern left right. 0 < comparePattern S pattern (m_sa S ! k)) \<and>
   (\<forall>k. findLeft_loop S pattern left right \<le> k \<and> k < length (m_sa S) \<longrightarrow>
        \<not> 0 < comparePattern S pattern (m_sa S ! k))"
proof (induction S pattern left right rule: findLeft_loop.induct)
  case (1 S pattern left right)
  note n = "1.prems"(1) and SA = "1.prems"(2) and lr = "1.prems"(3) and rl = "1.prems"(4)
    and below = "1.prems"(5) and above = "1.prems"(6)
  let ?mid = "left + (right - left) div 2"
  show ?case
  proof (cases "left < right")
    case False
    with lr have "left = right" by simp
    moreover from False have "findLeft_loop S pattern left right = left"
      by (subst findLeft_loop.simps) simp
    ultimately show ?thesis using below above by simp
  next
    case True
    then have mid: "left \<le> ?mid" "?mid < right" by simp_all
    with rl have midlen: "?mid < length (m_sa S)" by simp
    show ?thesis
    proof (cases "0 < comparePattern S pattern (m_sa S ! ?mid)")
      case pos: True
      have below': "\<forall>k < ?mid + 1. 0 < comparePattern S pattern (m_sa S ! k)"
      proof (intro allI impI)
        fix k assume "k < ?mid + 1"
        then have "k \<le> ?mid" by simp
        from comparePattern_sa_mono [OF n SA this midlen, of pattern] pos
        show "0 < comparePattern S pattern (m_sa S ! k)" by simp
      qed
      from mid have "?mid + 1 \<le> right" by simp
      from "1.IH"(1) [OF True pos n SA this rl below' above] mid
      have "left \<le> findLeft_loop S pattern (?mid + 1) right \<and>
            findLeft_loop S pattern (?mid + 1) right \<le> right \<and>
            (\<forall>k < findLeft_loop S pattern (?mid + 1) right. 0 < comparePattern S pattern (m_sa S ! k)) \<and>
            (\<forall>k. findLeft_loop S pattern (?mid + 1) right \<le> k \<and> k < length (m_sa S) \<longrightarrow>
                \<not> 0 < comparePattern S pattern (m_sa S ! k))" by simp
      moreover have "findLeft_loop S pattern left right = findLeft_loop S pattern (?mid + 1) right"
        using True pos by (subst findLeft_loop.simps) simp
      ultimately show ?thesis by simp
    next
      case npos: False
      have above': "\<forall>k. ?mid \<le> k \<and> k < length (m_sa S) \<longrightarrow>
                      \<not> 0 < comparePattern S pattern (m_sa S ! k)"
      proof (intro allI impI)
        fix k assume k: "?mid \<le> k \<and> k < length (m_sa S)"
        then have "?mid \<le> k" "k < length (m_sa S)" by simp_all
        from comparePattern_sa_mono [OF n SA this, of pattern] npos
        show "\<not> 0 < comparePattern S pattern (m_sa S ! k)" by simp
      qed
      from midlen have "?mid \<le> length (m_sa S)" by simp
      from "1.IH"(2) [OF True npos n SA mid(1) this below above'] mid
      have "left \<le> findLeft_loop S pattern left ?mid \<and>
            findLeft_loop S pattern left ?mid \<le> right \<and>
            (\<forall>k < findLeft_loop S pattern left ?mid. 0 < comparePattern S pattern (m_sa S ! k)) \<and>
            (\<forall>k. findLeft_loop S pattern left ?mid \<le> k \<and> k < length (m_sa S) \<longrightarrow>
                \<not> 0 < comparePattern S pattern (m_sa S ! k))" by simp
      moreover have "findLeft_loop S pattern left right = findLeft_loop S pattern left ?mid"
        using True npos by (subst findLeft_loop.simps) simp
      ultimately show ?thesis by simp
    qed
  qed
qed

lemma findRight_loop_partition:
  "m_n S = length (m_text S) \<Longrightarrow> is_suffix_array (m_text S) (m_sa S) \<Longrightarrow>
   left \<le> right \<Longrightarrow> right \<le> length (m_sa S) \<Longrightarrow>
   (\<forall>k < left. 0 \<le> comparePattern S pattern (m_sa S ! k)) \<Longrightarrow>
   (\<forall>k. right \<le> k \<and> k < length (m_sa S) \<longrightarrow> \<not> 0 \<le> comparePattern S pattern (m_sa S ! k)) \<Longrightarrow>
   left \<le> findRight_loop S pattern left right \<and> findRight_loop S pattern left right \<le> right \<and>
   (\<forall>k < findRight_loop S pattern left right. 0 \<le> comparePattern S pattern (m_sa S ! k)) \<and>
   (\<forall>k. findRight_loop S pattern left right \<le> k \<and> k < length (m_sa S) \<longrightarrow>
        \<not> 0 \<le> comparePattern S pattern (m_sa S ! k))"
proof (induction S pattern left right rule: findRight_loop.induct)
  case (1 S pattern left right)
  note n = "1.prems"(1) and SA = "1.prems"(2) and lr = "1.prems"(3) and rl = "1.prems"(4)
    and below = "1.prems"(5) and above = "1.prems"(6)
  let ?mid = "left + (right - left) div 2"
  show ?case
  proof (cases "left < right")
    case False
    with lr have "left = right" by simp
    moreover from False have "findRight_loop S pattern left right = left"
      by (subst findRight_loop.simps) simp
    ultimately show ?thesis using below above by simp
  next
    case True
    then have mid: "left \<le> ?mid" "?mid < right" by simp_all
    with rl have midlen: "?mid < length (m_sa S)" by simp
    show ?thesis
    proof (cases "0 \<le> comparePattern S pattern (m_sa S ! ?mid)")
      case pos: True
      have below': "\<forall>k < ?mid + 1. 0 \<le> comparePattern S pattern (m_sa S ! k)"
      proof (intro allI impI)
        fix k assume "k < ?mid + 1"
        then have "k \<le> ?mid" by simp
        from comparePattern_sa_mono [OF n SA this midlen, of pattern] pos
        show "0 \<le> comparePattern S pattern (m_sa S ! k)" by simp
      qed
      from mid have "?mid + 1 \<le> right" by simp
      from "1.IH"(1) [OF True pos n SA this rl below' above] mid
      have "left \<le> findRight_loop S pattern (?mid + 1) right \<and>
            findRight_loop S pattern (?mid + 1) right \<le> right \<and>
            (\<forall>k < findRight_loop S pattern (?mid + 1) right. 0 \<le> comparePattern S pattern (m_sa S ! k)) \<and>
            (\<forall>k. findRight_loop S pattern (?mid + 1) right \<le> k \<and> k < length (m_sa S) \<longrightarrow>
                \<not> 0 \<le> comparePattern S pattern (m_sa S ! k))" by simp
      moreover have "findRight_loop S pattern left right = findRight_loop S pattern (?mid + 1) right"
        using True pos by (subst findRight_loop.simps) simp
      ultimately show ?thesis by simp
    next
      case npos: False
      have above': "\<forall>k. ?mid \<le> k \<and> k < length (m_sa S) \<longrightarrow>
                      \<not> 0 \<le> comparePattern S pattern (m_sa S ! k)"
      proof (intro allI impI)
        fix k assume k: "?mid \<le> k \<and> k < length (m_sa S)"
        then have "?mid \<le> k" "k < length (m_sa S)" by simp_all
        from comparePattern_sa_mono [OF n SA this, of pattern] npos
        show "\<not> 0 \<le> comparePattern S pattern (m_sa S ! k)" by simp
      qed
      from midlen have "?mid \<le> length (m_sa S)" by simp
      from "1.IH"(2) [OF True npos n SA mid(1) this below above'] mid
      have "left \<le> findRight_loop S pattern left ?mid \<and>
            findRight_loop S pattern left ?mid \<le> right \<and>
            (\<forall>k < findRight_loop S pattern left ?mid. 0 \<le> comparePattern S pattern (m_sa S ! k)) \<and>
            (\<forall>k. findRight_loop S pattern left ?mid \<le> k \<and> k < length (m_sa S) \<longrightarrow>
                \<not> 0 \<le> comparePattern S pattern (m_sa S ! k))" by simp
      moreover have "findRight_loop S pattern left right = findRight_loop S pattern left ?mid"
        using True npos by (subst findRight_loop.simps) simp
      ultimately show ?thesis by simp
    qed
  qed
qed

lemma findLeft_partition:
  assumes "m_n S = length (m_text S)" and "is_suffix_array (m_text S) (m_sa S)"
  shows "findLeft S pattern \<le> length (m_sa S)"
    and "\<forall>k < findLeft S pattern. 0 < comparePattern S pattern (m_sa S ! k)"
    and "\<forall>k. findLeft S pattern \<le> k \<and> k < length (m_sa S) \<longrightarrow>
           \<not> 0 < comparePattern S pattern (m_sa S ! k)"
  using findLeft_loop_partition [OF assms, of 0 "length (m_sa S)" pattern]
  by (simp_all add: findLeft_def)

lemma findRight_partition:
  assumes "m_n S = length (m_text S)" and "is_suffix_array (m_text S) (m_sa S)"
  shows "findRight S pattern \<le> length (m_sa S)"
    and "\<forall>k < findRight S pattern. 0 \<le> comparePattern S pattern (m_sa S ! k)"
    and "\<forall>k. findRight S pattern \<le> k \<and> k < length (m_sa S) \<longrightarrow>
           \<not> 0 \<le> comparePattern S pattern (m_sa S ! k)"
  using findRight_loop_partition [OF assms, of 0 "length (m_sa S)" pattern]
  by (simp_all add: findRight_def)

lemma findLeft_le_findRight:
  assumes "m_n S = length (m_text S)" and "is_suffix_array (m_text S) (m_sa S)"
  shows "findLeft S pattern \<le> findRight S pattern"
proof (rule ccontr)
  assume "\<not> findLeft S pattern \<le> findRight S pattern"
  then have lt: "findRight S pattern < findLeft S pattern" by simp
  with findLeft_partition(2) [OF assms, of pattern]
  have "0 < comparePattern S pattern (m_sa S ! findRight S pattern)" by simp
  moreover from lt findLeft_partition(1) [OF assms, of pattern]
  have "findRight S pattern < length (m_sa S)" by simp
  with findRight_partition(3) [OF assms, of pattern]
  have "\<not> 0 \<le> comparePattern S pattern (m_sa S ! findRight S pattern)" by simp
  ultimately show False by simp
qed

lemma new_SuffixArray_correct:
  "\<exists>lcp. new_SuffixArray t =
      Some \<lparr>m_sa = buildSimple t (length t), m_lcp = lcp, m_text = t, m_n = length t\<rparr>"
proof (cases "length t = 0")
  case True
  then show ?thesis by (simp add: new_SuffixArray_def buildSimple_def std_sort_def)
next
  case False
  let ?S = "\<lparr>m_sa = buildSimple t (length t), m_lcp = [], m_text = t, m_n = length t\<rparr>"
  have "is_suffix_array (m_text ?S) (m_sa ?S)" by (simp add: buildSimple_suffix_array)
  from computeLCP_correct [OF this] obtain lcp where "computeLCP ?S = Some (?S\<lparr>m_lcp := lcp\<rparr>)"
    by auto
  with False show ?thesis by (simp add: new_SuffixArray_def)
qed

lemma new_SuffixArray_valid:
  assumes "new_SuffixArray t = Some S"
  shows "m_text S = t" and "m_n S = length (m_text S)" and "is_suffix_array (m_text S) (m_sa S)"
  using new_SuffixArray_correct [of t] assms by (auto simp: buildSimple_suffix_array)

section \<open>The index object\<close>

text \<open>
  C6. For every text \<open>t\<close> of length \<open>n\<close> the constructor returns an object whose array
  \<open>sa\<close> has length \<open>n\<close>, is a permutation of \<open>[0, n)\<close>, and has
  \<open>suffix(sa[i]) < suffix(sa[i+1])\<close> for all \<open>0 \<le> i < n - 1\<close> in the lexicographic order
  of code units, \<^const>\<open>lexord\<close>, in which a proper prefix is smaller.
\<close>

theorem constructor_suffix_array:
  "\<exists>S. new_SuffixArray t = Some S \<and> m_text S = t \<and> m_n S = length t \<and>
       length (m_sa S) = length t \<and> set (m_sa S) = {0..<length t} \<and> distinct (m_sa S) \<and>
       (\<forall>i. i + 1 < length t \<longrightarrow>
          (drop (m_sa S ! i) t, drop (m_sa S ! (i + 1)) t) \<in> lexord {(u, v). u < v})"
proof -
  from new_SuffixArray_correct [of t] obtain S where S: "new_SuffixArray t = Some S" by blast
  note v = new_SuffixArray_valid [OF S]
  from v(3) have len: "length (m_sa S) = length t" and set: "set (m_sa S) = {0..<length t}"
    unfolding v(1) by (simp_all add: is_suffix_array_def)
  from v(3) have dist: "distinct (m_sa S)" by (rule suffix_array_distinct)
  have "\<forall>i. i + 1 < length t \<longrightarrow>
          (drop (m_sa S ! i) t, drop (m_sa S ! (i + 1)) t) \<in> lexord {(u, v). u < v}"
  proof (intro allI impI)
    fix i assume "i + 1 < length t"
    with suffix_array_mono [OF v(3), of i "i + 1"] v(1)
    have "drop (m_sa S ! i) t < drop (m_sa S ! (i + 1)) t" by simp
    then show "(drop (m_sa S ! i) t, drop (m_sa S ! (i + 1)) t) \<in> lexord {(u, v). u < v}"
      by (simp add: list_less_def)
  qed
  with S v(1,2) len set dist show ?thesis by auto
qed

theorem constructor_suffix_array_witness:
  "new_SuffixArray [98, 97, 110, 97, 110, 97] =
     Some \<lparr>m_sa = [5, 3, 1, 0, 4, 2], m_lcp = [0, 1, 3, 0, 0, 2],
           m_text = [98, 97, 110, 97, 110, 97], m_n = 6\<rparr> \<and>
   ([97], [97, 110, 97]) \<in> lexord {(u, v). u < (v::nat)}"
proof -
  let ?t = "[98, 97, 110, 97, 110, 97] :: nat list"
  have e: "new_SuffixArray ?t =
     Some \<lparr>m_sa = [5, 3, 1, 0, 4, 2], m_lcp = [0, 1, 3, 0, 0, 2], m_text = ?t, m_n = 6\<rparr>"
    by code_simp
  from constructor_suffix_array [of ?t] obtain S where "new_SuffixArray ?t = Some S"
    and "\<forall>i. i + 1 < length ?t \<longrightarrow>
          (drop (m_sa S ! i) ?t, drop (m_sa S ! (i + 1)) ?t) \<in> lexord {(u, v). u < v}"
    by blast
  with e have "(drop ([5, 3, 1, 0, 4, 2] ! 0) ?t, drop ([5, 3, 1, 0, 4, 2] ! (0 + 1)) ?t)
      \<in> lexord {(u, v). u < v}" by auto
  then have "([97], [97, 110, 97]) \<in> lexord {(u, v). u < (v::nat)}" by simp
  with e show ?thesis by simp
qed

text \<open>
  C7. For an object with a correct suffix array of its text and a fresh (empty) \<open>lcp_\<close>,
  as the constructor calls it, \<^verbatim>\<open>computeLCP\<close> returns with \<open>LCP[0] = 0\<close> and, for every
  \<open>i \<ge> 1\<close>, \<open>LCP[i]\<close> the exact length of the longest common prefix of
  \<open>suffix(SA[i-1])\<close> and \<open>suffix(SA[i])\<close>.
\<close>

theorem kasai_lcp:
  assumes "is_suffix_array (m_text S) (m_sa S)" and "m_lcp S = []"
  shows "\<exists>lcp. computeLCP S = Some (S\<lparr>m_lcp := lcp\<rparr>) \<and> length lcp = length (m_text S) \<and>
           (0 < length (m_text S) \<longrightarrow> lcp ! 0 = 0) \<and>
           (\<forall>i. 1 \<le> i \<and> i < length (m_text S) \<longrightarrow>
              lcp ! i = length (longest_common_prefix (drop (m_sa S ! (i - 1)) (m_text S))
                                                      (drop (m_sa S ! i) (m_text S))))"
  using assms by (rule computeLCP_correct)

theorem kasai_lcp_witness:
  "is_suffix_array [98, 97, 110, 97, 110, 97] [5, 3, 1, 0, 4, 2] \<and>
   (\<exists>lcp. computeLCP \<lparr>m_sa = [5, 3, 1, 0, 4, 2], m_lcp = [],
                       m_text = [98, 97, 110, 97, 110, 97], m_n = 6\<rparr> =
            Some \<lparr>m_sa = [5, 3, 1, 0, 4, 2], m_lcp = lcp,
                  m_text = [98, 97, 110, 97, 110, 97], m_n = 6\<rparr> \<and>
          length lcp = 6 \<and> lcp ! 0 = 0 \<and>
          lcp ! 2 = length (longest_common_prefix [97, 110, 97] [97, 110, 97, 110, 97]))"
proof -
  let ?t = "[98, 97, 110, 97, 110, 97] :: nat list"
  let ?S = "\<lparr>m_sa = [5, 3, 1, 0, 4, 2], m_lcp = [], m_text = ?t, m_n = 6\<rparr>"
  have sa: "is_suffix_array ?t [5, 3, 1, 0, 4, 2]" by code_simp
  then have h: "is_suffix_array (m_text ?S) (m_sa ?S)" by simp
  have f: "m_lcp ?S = []" by simp
  from kasai_lcp [OF h f] obtain lcp where c: "computeLCP ?S = Some (?S\<lparr>m_lcp := lcp\<rparr>)"
    and l: "length lcp = length (m_text ?S)"
    and z: "0 < length (m_text ?S) \<longrightarrow> lcp ! 0 = 0"
    and a: "\<forall>i. 1 \<le> i \<and> i < length (m_text ?S) \<longrightarrow>
              lcp ! i = length (longest_common_prefix (drop (m_sa ?S ! (i - 1)) (m_text ?S))
                                                      (drop (m_sa ?S ! i) (m_text ?S)))"
    by blast
  from a have "1 \<le> (2::nat) \<and> 2 < length (m_text ?S) \<longrightarrow>
     lcp ! 2 = length (longest_common_prefix (drop (m_sa ?S ! (2 - 1)) (m_text ?S))
                                             (drop (m_sa ?S ! 2) (m_text ?S)))" by blast
  then have "lcp ! 2 = length (longest_common_prefix [97, 110, 97] [97, 110, 97, 110, 97])"
    by simp
  with sa c l z show ?thesis by auto
qed

text \<open>
  C10. On every object the constructor builds and for every pattern,
  \<^verbatim>\<open>count\<close> is the length of \<^verbatim>\<open>findAll\<close>, and \<^verbatim>\<open>exists\<close> holds exactly when
  \<^verbatim>\<open>findAll\<close> is not empty.
\<close>

theorem matcher_consistent:
  assumes "new_SuffixArray t = Some S"
  shows "count_pattern S pattern = int (length (findAll S pattern)) \<and>
         (exists_pattern S pattern \<longleftrightarrow> findAll S pattern \<noteq> [])"
proof -
  note v = new_SuffixArray_valid [OF assms]
  have nil: "sort xs = [] \<longleftrightarrow> xs = []" for xs :: "nat list"
    using length_sort [of "\<lambda>x. x" xs] by (metis length_0_conv)
  from findLeft_le_findRight [OF v(2,3), of pattern]
  show ?thesis
    by (auto simp: count_pattern_def exists_pattern_def findAll_def nil)
qed

theorem matcher_consistent_witness:
  "new_SuffixArray [98, 97, 110, 97, 110, 97] =
     Some \<lparr>m_sa = [5, 3, 1, 0, 4, 2], m_lcp = [0, 1, 3, 0, 0, 2],
           m_text = [98, 97, 110, 97, 110, 97], m_n = 6\<rparr> \<and>
   findAll \<lparr>m_sa = [5, 3, 1, 0, 4, 2], m_lcp = [0, 1, 3, 0, 0, 2],
           m_text = [98, 97, 110, 97, 110, 97], m_n = 6\<rparr> [97, 110, 97] = [1, 3] \<and>
   count_pattern \<lparr>m_sa = [5, 3, 1, 0, 4, 2], m_lcp = [0, 1, 3, 0, 0, 2],
           m_text = [98, 97, 110, 97, 110, 97], m_n = 6\<rparr> [97, 110, 97] = 2 \<and>
   exists_pattern \<lparr>m_sa = [5, 3, 1, 0, 4, 2], m_lcp = [0, 1, 3, 0, 0, 2],
           m_text = [98, 97, 110, 97, 110, 97], m_n = 6\<rparr> [97, 110, 97]"
proof -
  let ?t = "[98, 97, 110, 97, 110, 97] :: nat list"
  let ?S = "\<lparr>m_sa = [5, 3, 1, 0, 4, 2], m_lcp = [0, 1, 3, 0, 0, 2], m_text = ?t, m_n = 6\<rparr>"
  have e: "new_SuffixArray ?t = Some ?S" by code_simp
  have f: "findAll ?S [97, 110, 97] = [1, 3]" by code_simp
  from matcher_consistent [OF e, of "[97, 110, 97]"] f
  have "count_pattern ?S [97, 110, 97] = 2" and "exists_pattern ?S [97, 110, 97]" by simp_all
  with e f show ?thesis by simp
qed

section \<open>The locator returns the occurrence list\<close>

text \<open>
  For a suffix array of the text and a non-empty pattern without a zero code unit,
  \<^verbatim>\<open>sa_match\<close> returns exactly the occurrence list of the specification
  (\<open>sa_match_correct\<close>): no comparison runs past the terminator of the buffer, the
  comparison is monotone along the suffix array, and the two binary searches find the
  first and the last suffix that starts with the pattern. The matcher on the object,
  which bounds every comparison by the length of the text, does so for every non-empty
  pattern (\<open>findAll_correct\<close>).
\<close>

lemma cmp3_mono: "u \<le> v \<Longrightarrow> cmp3 u t \<le> cmp3 v t"
  by (auto simp: cmp3_def)

lemma char_traits_compare_lex:
  "i \<le> length s \<Longrightarrow> j + cnt = length t \<Longrightarrow> 0 \<notin> set (drop j t) \<Longrightarrow>
   char_traits_compare s i t j cnt = Some (cmp3 (take cnt (drop i s)) (drop j t))"
proof (induction cnt arbitrary: i j)
  case 0
  then show ?case by (simp add: cmp3_def)
next
  case (Suc cnt)
  from Suc.prems(2) have j: "j < length t" by simp
  then have dt: "drop j t = t ! j # drop (Suc j) t" by (simp add: Cons_nth_drop_Suc)
  with Suc.prems(3) have nz: "t ! j \<noteq> 0" and nz': "0 \<notin> set (drop (Suc j) t)" by auto
  from j have rt: "c_str_at t j = Some (t ! j)" by (simp add: c_str_at_def)
  show ?case
  proof (cases "i < length s")
    case True
    then have ds: "drop i s = s ! i # drop (Suc i) s" by (simp add: Cons_nth_drop_Suc)
    from True have rs: "c_str_at s i = Some (s ! i)" by (simp add: c_str_at_def)
    show ?thesis
    proof (cases "s ! i = t ! j")
      case eq: True
      from True have "Suc i \<le> length s" by simp
      moreover from Suc.prems(2) have "Suc j + cnt = length t" by simp
      ultimately have "char_traits_compare s (Suc i) t (Suc j) cnt =
          Some (cmp3 (take cnt (drop (Suc i) s)) (drop (Suc j) t))"
        using nz' by (rule Suc.IH)
      with eq rs rt show ?thesis by (simp add: ds dt cmp3_def)
    next
      case False
      with rs rt show ?thesis by (auto simp: ds dt cmp3_def)
    qed
  next
    case False
    with Suc.prems(1) have "i = length s" by simp
    then have "c_str_at s i = Some 0" "drop i s = []" by (simp_all add: c_str_at_def)
    with rt nz show ?thesis by (simp add: dt cmp3_def)
  qed
qed

lemma at_map_int: "0 \<le> k \<Longrightarrow> k < int (length xs) \<Longrightarrow> at (map int xs) k = Some (int (xs ! nat k))"
  by (simp add: at_def)

lemma probe_lex:
  assumes "is_suffix_array s sa" and "0 \<notin> set t" and "0 \<le> mid" and "mid < int (length s)"
  shows "probe s (map int sa) t mid =
           Some (cmp3 (take (length t) (drop (sa ! nat mid) s)) t)"
proof -
  from assms(1) have len: "length sa = length s" by (simp add: is_suffix_array_def)
  from assms(3,4) have "nat mid < length s" by simp
  from suffix_array_nth [OF assms(1) this] have "sa ! nat mid \<le> length s" by simp
  from char_traits_compare_lex [OF this, of 0 "length t" t] assms(2)
  have "char_traits_compare s (sa ! nat mid) t 0 (length t) =
          Some (cmp3 (take (length t) (drop (sa ! nat mid) s)) t)" by simp
  with assms(3,4) len show ?thesis by (simp add: probe_def at_map_int)
qed

lemma bin_first:
  "first \<Longrightarrow>
   \<forall>k. 0 \<le> k \<and> k < n \<longrightarrow> probe s sa t k = Some (c k) \<Longrightarrow>
   \<forall>k k'. 0 \<le> k \<and> k \<le> k' \<and> k' < n \<longrightarrow> c k \<le> c k' \<Longrightarrow>
   0 \<le> l \<Longrightarrow> r < n \<Longrightarrow> l \<le> r + 1 \<Longrightarrow>
   \<forall>k. 0 \<le> k \<and> k < l \<longrightarrow> c k < 0 \<Longrightarrow>
   \<forall>k. r < k \<and> k < n \<longrightarrow> 0 \<le> c k \<Longrightarrow>
   ans = (if r + 1 < n \<and> c (r + 1) = 0 then r + 1 else - 1) \<Longrightarrow>
   \<exists>res. bin s sa t first l r ans = Some res \<and>
     ((res = - 1 \<and> (\<forall>k. 0 \<le> k \<and> k < n \<longrightarrow> c k \<noteq> 0)) \<or>
      (0 \<le> res \<and> res < n \<and> c res = 0 \<and> (\<forall>k. 0 \<le> k \<and> k < res \<longrightarrow> c k < 0)))"
proof (induction s sa t first l r ans rule: bin.induct)
  case (1 s sa t first l r ans)
  note first = "1.prems"(1) and pr = "1.prems"(2) and mono = "1.prems"(3)
    and l0 = "1.prems"(4) and rn = "1.prems"(5) and lr = "1.prems"(6)
    and below = "1.prems"(7) and above = "1.prems"(8) and ans = "1.prems"(9)
  let ?mid = "(l + r) div 2"
  show ?case
  proof (cases "l \<le> r")
    case False
    with lr have l: "l = r + 1" by simp
    have eq: "bin s sa t first l r ans = Some ans"
      using False by (subst bin.simps) simp
    show ?thesis
    proof (cases "r + 1 < n \<and> c (r + 1) = 0")
      case True
      with ans l l0 below eq show ?thesis by auto
    next
      case none: False
      with ans have a: "ans = - 1" by simp
      have "\<forall>k. 0 \<le> k \<and> k < n \<longrightarrow> c k \<noteq> 0"
      proof (intro allI impI)
        fix k assume k: "0 \<le> k \<and> k < n"
        show "c k \<noteq> 0"
        proof (cases "k < l")
          case True
          with k below show ?thesis by force
        next
          case False
          with l have rk: "r < k" by simp
          show ?thesis
          proof
            assume z: "c k = 0"
            from rk k have rn': "r + 1 < n" by simp
            from l0 l rk k mono have "c (r + 1) \<le> c k" by simp
            moreover from above rn' have "0 \<le> c (r + 1)" by simp
            ultimately have "c (r + 1) = 0" using z by simp
            with rn' none show False by simp
          qed
        qed
      qed
      with a eq show ?thesis by simp
    qed
  next
    case True
    with l0 rn have mid: "l \<le> ?mid" "?mid \<le> r" "0 \<le> ?mid" "?mid < n" by simp_all
    with pr have p: "probe s sa t ?mid = Some (c ?mid)" by simp
    have up: "c ?mid \<le> c k" if "?mid \<le> k" "k < n" for k
      using mono mid(3) that by simp
    have down: "c k \<le> c ?mid" if "0 \<le> k" "k \<le> ?mid" for k
      using mono mid(4) that by simp
    show ?thesis
    proof (cases "c ?mid = 0")
      case z: True
      have above': "\<forall>k. ?mid - 1 < k \<and> k < n \<longrightarrow> 0 \<le> c k"
      proof (intro allI impI)
        fix k assume "?mid - 1 < k \<and> k < n"
        then have "?mid \<le> k" "k < n" by simp_all
        from up [OF this] z show "0 \<le> c k" by simp
      qed
      have ans': "?mid = (if ?mid - 1 + 1 < n \<and> c (?mid - 1 + 1) = 0 then ?mid - 1 + 1 else - 1)"
        using mid z by simp
      from mid rn have "?mid - 1 < n" "l \<le> ?mid - 1 + 1" by simp_all
      from "1.IH"(1) [OF True p z first first pr mono l0 this below above' ans']
      have "\<exists>res. bin s sa t first l (?mid - 1) ?mid = Some res \<and>
        ((res = - 1 \<and> (\<forall>k. 0 \<le> k \<and> k < n \<longrightarrow> c k \<noteq> 0)) \<or>
         (0 \<le> res \<and> res < n \<and> c res = 0 \<and> (\<forall>k. 0 \<le> k \<and> k < res \<longrightarrow> c k < 0)))" .
      moreover have "bin s sa t first l r ans = bin s sa t first l (?mid - 1) ?mid"
        using True p z first by (subst bin.simps) simp
      ultimately show ?thesis by simp
    next
      case nz: False
      show ?thesis
      proof (cases "0 < c ?mid")
        case pos: True
        have above': "\<forall>k. ?mid - 1 < k \<and> k < n \<longrightarrow> 0 \<le> c k"
        proof (intro allI impI)
          fix k assume "?mid - 1 < k \<and> k < n"
          then have "?mid \<le> k" "k < n" by simp_all
          from up [OF this] pos show "0 \<le> c k" by simp
        qed
        have "ans = - 1"
        proof (cases "r + 1 < n")
          case True
          with up [of "r + 1"] mid pos have "0 < c (r + 1)" by simp
          with ans show ?thesis by simp
        next
          case False
          with ans show ?thesis by simp
        qed
        then have ans': "ans = (if ?mid - 1 + 1 < n \<and> c (?mid - 1 + 1) = 0 then ?mid - 1 + 1 else - 1)"
          using nz by simp
        from mid rn have "?mid - 1 < n" "l \<le> ?mid - 1 + 1" by simp_all
        from "1.IH"(3) [OF True p nz pos first pr mono l0 this below above' ans']
        have "\<exists>res. bin s sa t first l (?mid - 1) ans = Some res \<and>
          ((res = - 1 \<and> (\<forall>k. 0 \<le> k \<and> k < n \<longrightarrow> c k \<noteq> 0)) \<or>
           (0 \<le> res \<and> res < n \<and> c res = 0 \<and> (\<forall>k. 0 \<le> k \<and> k < res \<longrightarrow> c k < 0)))" .
        moreover have "bin s sa t first l r ans = bin s sa t first l (?mid - 1) ans"
          using True p nz pos by (subst bin.simps) simp
        ultimately show ?thesis by simp
      next
        case npos: False
        with nz have neg: "c ?mid < 0" by simp
        have below': "\<forall>k. 0 \<le> k \<and> k < ?mid + 1 \<longrightarrow> c k < 0"
        proof (intro allI impI)
          fix k assume "0 \<le> k \<and> k < ?mid + 1"
          then have "0 \<le> k" "k \<le> ?mid" by simp_all
          from down [OF this] neg show "c k < 0" by simp
        qed
        from mid have "0 \<le> ?mid + 1" "?mid + 1 \<le> r + 1" by simp_all
        from "1.IH"(4) [OF True p nz npos first pr mono this(1) rn this(2) below' above ans]
        have "\<exists>res. bin s sa t first (?mid + 1) r ans = Some res \<and>
          ((res = - 1 \<and> (\<forall>k. 0 \<le> k \<and> k < n \<longrightarrow> c k \<noteq> 0)) \<or>
           (0 \<le> res \<and> res < n \<and> c res = 0 \<and> (\<forall>k. 0 \<le> k \<and> k < res \<longrightarrow> c k < 0)))" .
        moreover have "bin s sa t first l r ans = bin s sa t first (?mid + 1) r ans"
          using True p nz npos by (subst bin.simps) simp
        ultimately show ?thesis by simp
      qed
    qed
  qed
qed

lemma bin_last:
  "\<not> first \<Longrightarrow>
   \<forall>k. 0 \<le> k \<and> k < n \<longrightarrow> probe s sa t k = Some (c k) \<Longrightarrow>
   \<forall>k k'. 0 \<le> k \<and> k \<le> k' \<and> k' < n \<longrightarrow> c k \<le> c k' \<Longrightarrow>
   0 \<le> l \<Longrightarrow> r < n \<Longrightarrow> l \<le> r + 1 \<Longrightarrow>
   \<forall>k. 0 \<le> k \<and> k < l \<longrightarrow> c k \<le> 0 \<Longrightarrow>
   \<forall>k. r < k \<and> k < n \<longrightarrow> 0 < c k \<Longrightarrow>
   ans = (if 0 \<le> l - 1 \<and> c (l - 1) = 0 then l - 1 else - 1) \<Longrightarrow>
   \<exists>res. bin s sa t first l r ans = Some res \<and>
     ((res = - 1 \<and> (\<forall>k. 0 \<le> k \<and> k < n \<longrightarrow> c k \<noteq> 0)) \<or>
      (0 \<le> res \<and> res < n \<and> c res = 0 \<and> (\<forall>k. res < k \<and> k < n \<longrightarrow> 0 < c k)))"
proof (induction s sa t first l r ans rule: bin.induct)
  case (1 s sa t first l r ans)
  note first = "1.prems"(1) and pr = "1.prems"(2) and mono = "1.prems"(3)
    and l0 = "1.prems"(4) and rn = "1.prems"(5) and lr = "1.prems"(6)
    and below = "1.prems"(7) and above = "1.prems"(8) and ans = "1.prems"(9)
  let ?mid = "(l + r) div 2"
  show ?case
  proof (cases "l \<le> r")
    case False
    with lr have l: "l = r + 1" by simp
    have eq: "bin s sa t first l r ans = Some ans"
      using False by (subst bin.simps) simp
    show ?thesis
    proof (cases "0 \<le> l - 1 \<and> c (l - 1) = 0")
      case True
      with ans l rn above eq show ?thesis by auto
    next
      case none: False
      with ans have a: "ans = - 1" by simp
      have "\<forall>k. 0 \<le> k \<and> k < n \<longrightarrow> c k \<noteq> 0"
      proof (intro allI impI)
        fix k assume k: "0 \<le> k \<and> k < n"
        show "c k \<noteq> 0"
        proof (cases "k < l")
          case False
          with l have "r < k" by simp
          with k above show ?thesis by force
        next
          case True
          show ?thesis
          proof
            assume z: "c k = 0"
            from True k have l1: "0 \<le> l - 1" "k \<le> l - 1" by simp_all
            from l rn have "l - 1 < n" by simp
            with l1 k mono have "c k \<le> c (l - 1)" by simp
            moreover from below l1 l0 have "c (l - 1) \<le> 0" by simp
            ultimately have "c (l - 1) = 0" using z by simp
            with l1 none show False by simp
          qed
        qed
      qed
      with a eq show ?thesis by simp
    qed
  next
    case True
    with l0 rn have mid: "l \<le> ?mid" "?mid \<le> r" "0 \<le> ?mid" "?mid < n" by simp_all
    with pr have p: "probe s sa t ?mid = Some (c ?mid)" by simp
    have up: "c ?mid \<le> c k" if "?mid \<le> k" "k < n" for k
      using mono mid(3) that by simp
    have down: "c k \<le> c ?mid" if "0 \<le> k" "k \<le> ?mid" for k
      using mono mid(4) that by simp
    show ?thesis
    proof (cases "c ?mid = 0")
      case z: True
      have below': "\<forall>k. 0 \<le> k \<and> k < ?mid + 1 \<longrightarrow> c k \<le> 0"
      proof (intro allI impI)
        fix k assume "0 \<le> k \<and> k < ?mid + 1"
        then have "0 \<le> k" "k \<le> ?mid" by simp_all
        from down [OF this] z show "c k \<le> 0" by simp
      qed
      have ans': "?mid = (if 0 \<le> ?mid + 1 - 1 \<and> c (?mid + 1 - 1) = 0 then ?mid + 1 - 1 else - 1)"
        using mid z by simp
      from mid have "0 \<le> ?mid + 1" "?mid + 1 \<le> r + 1" by simp_all
      from "1.IH"(2) [OF True p z first first pr mono this(1) rn this(2) below' above ans']
      have "\<exists>res. bin s sa t first (?mid + 1) r ?mid = Some res \<and>
        ((res = - 1 \<and> (\<forall>k. 0 \<le> k \<and> k < n \<longrightarrow> c k \<noteq> 0)) \<or>
         (0 \<le> res \<and> res < n \<and> c res = 0 \<and> (\<forall>k. res < k \<and> k < n \<longrightarrow> 0 < c k)))" .
      moreover have "bin s sa t first l r ans = bin s sa t first (?mid + 1) r ?mid"
        using True p z first by (subst bin.simps) simp
      ultimately show ?thesis by simp
    next
      case nz: False
      show ?thesis
      proof (cases "0 < c ?mid")
        case pos: True
        have above': "\<forall>k. ?mid - 1 < k \<and> k < n \<longrightarrow> 0 < c k"
        proof (intro allI impI)
          fix k assume "?mid - 1 < k \<and> k < n"
          then have "?mid \<le> k" "k < n" by simp_all
          from up [OF this] pos show "0 < c k" by simp
        qed
        from mid rn have "?mid - 1 < n" "l \<le> ?mid - 1 + 1" by simp_all
        from "1.IH"(3) [OF True p nz pos first pr mono l0 this below above' ans]
        have "\<exists>res. bin s sa t first l (?mid - 1) ans = Some res \<and>
          ((res = - 1 \<and> (\<forall>k. 0 \<le> k \<and> k < n \<longrightarrow> c k \<noteq> 0)) \<or>
           (0 \<le> res \<and> res < n \<and> c res = 0 \<and> (\<forall>k. res < k \<and> k < n \<longrightarrow> 0 < c k)))" .
        moreover have "bin s sa t first l r ans = bin s sa t first l (?mid - 1) ans"
          using True p nz pos by (subst bin.simps) simp
        ultimately show ?thesis by simp
      next
        case npos: False
        with nz have neg: "c ?mid < 0" by simp
        have below': "\<forall>k. 0 \<le> k \<and> k < ?mid + 1 \<longrightarrow> c k \<le> 0"
        proof (intro allI impI)
          fix k assume "0 \<le> k \<and> k < ?mid + 1"
          then have "0 \<le> k" "k \<le> ?mid" by simp_all
          from down [OF this] neg show "c k \<le> 0" by simp
        qed
        have "ans = - 1"
        proof (cases "0 \<le> l - 1")
          case True
          with down [of "l - 1"] mid neg have "c (l - 1) < 0" by simp
          with ans show ?thesis by simp
        next
          case False
          with ans show ?thesis by simp
        qed
        then have ans': "ans = (if 0 \<le> ?mid + 1 - 1 \<and> c (?mid + 1 - 1) = 0 then ?mid + 1 - 1 else - 1)"
          using nz by simp
        from mid have "0 \<le> ?mid + 1" "?mid + 1 \<le> r + 1" by simp_all
        from "1.IH"(4) [OF True p nz npos first pr mono this(1) rn this(2) below' above ans']
        have "\<exists>res. bin s sa t first (?mid + 1) r ans = Some res \<and>
          ((res = - 1 \<and> (\<forall>k. 0 \<le> k \<and> k < n \<longrightarrow> c k \<noteq> 0)) \<or>
           (0 \<le> res \<and> res < n \<and> c res = 0 \<and> (\<forall>k. res < k \<and> k < n \<longrightarrow> 0 < c k)))" .
        moreover have "bin s sa t first l r ans = bin s sa t first (?mid + 1) r ans"
          using True p nz npos by (subst bin.simps) simp
        ultimately show ?thesis by simp
      qed
    qed
  qed
qed

lemma those_map_at_Some:
  "\<forall>i \<in> set is. 0 \<le> i \<and> i < int (length xs) \<Longrightarrow>
   those (map (at xs) is) = Some (map (\<lambda>i. xs ! nat i) is)"
  by (induction "is") (simp_all add: at_def)

lemma set_occ_spec:
  "set (occ_spec s t) = int ` {i. i < length s + 1 - length t \<and> take (length t) (drop i s) = t}"
  by (auto simp: occ_spec_def)

lemma strict_sorted_occ_spec: "sorted_wrt (<) (occ_spec s t)"
proof -
  let ?xs = "filter (\<lambda>i. take (length t) (drop i s) = t) [0..<length s + 1 - length t]"
  have "sorted_wrt (<) [0..<length s + 1 - length t]" by (simp add: strict_sorted_iff)
  then have "sorted_wrt (<) ?xs" by (rule sorted_wrt_filter)
  then show ?thesis unfolding occ_spec_def by (simp add: sorted_wrt_map)
qed

lemma occurrence_in_range:
  assumes "take (length t) (drop p s) = t" and "t \<noteq> []"
  shows "p + length t \<le> length s"
proof -
  from assms(1) have "length (take (length t) (drop p s)) = length t" by simp
  then have "length t \<le> length s - p" by simp
  moreover from assms(2) have "0 < length t" by simp
  ultimately show ?thesis by linarith
qed

lemma sa_match_correct:
  assumes SA: "is_suffix_array s sa" and nz: "0 \<notin> set t" and ne: "t \<noteq> []"
  shows "sa_match s (map int sa) t = Some (occ_spec s t)"
proof -
  let ?n = "length s" and ?m = "length t"
  let ?sa = "map int sa"
  from SA have len: "length sa = ?n" and set: "set sa = {0..<?n}"
    by (simp_all add: is_suffix_array_def)
  from ne have m1: "1 \<le> ?m" by (cases t) simp_all
  consider (short) "?n < ?m" | (same) "?n = ?m" | (long) "?m < ?n" by linarith
  then show ?thesis
  proof cases
    case short
    then show ?thesis by (simp add: sa_match_def occ_spec_def)
  next
    case same
    then have "[0..<?n + 1 - ?m] = [0]" by simp
    with same show ?thesis by (auto simp: sa_match_def occ_spec_def)
  next
    case long
    define c where "c k = cmp3 (take ?m (drop (sa ! nat k) s)) t" for k :: int
    have pr: "\<forall>k. 0 \<le> k \<and> k < int ?n \<longrightarrow> probe s ?sa t k = Some (c k)"
      using probe_lex [OF SA nz] by (simp add: c_def)
    have mono: "\<forall>k k'. 0 \<le> k \<and> k \<le> k' \<and> k' < int ?n \<longrightarrow> c k \<le> c k'"
    proof (intro allI impI)
      fix k k' assume k: "0 \<le> k \<and> k \<le> k' \<and> k' < int ?n"
      show "c k \<le> c k'"
      proof (cases "k = k'")
        case True
        then show ?thesis by simp
      next
        case False
        with k have "nat k < nat k'" "nat k' < ?n" by auto
        then have "drop (sa ! nat k) s < drop (sa ! nat k') s"
          by (rule suffix_array_mono [OF SA])
        then have "drop (sa ! nat k) s \<le> drop (sa ! nat k') s" by simp
        then have "take ?m (drop (sa ! nat k) s) \<le> take ?m (drop (sa ! nat k') s)"
          by (rule take_lex_mono)
        then show ?thesis unfolding c_def by (rule cmp3_mono)
      qed
    qed
    have c0: "c k = 0 \<longleftrightarrow> take ?m (drop (sa ! nat k) s) = t" for k
      by (auto simp: c_def cmp3_def)
    from bin_first [of True "int ?n" s ?sa t c 0 "int ?n - 1" "- 1"] pr mono
    obtain ansl where bl: "bin s ?sa t True 0 (int ?n - 1) (- 1) = Some ansl"
      and cl: "(ansl = - 1 \<and> (\<forall>k. 0 \<le> k \<and> k < int ?n \<longrightarrow> c k \<noteq> 0)) \<or>
        (0 \<le> ansl \<and> ansl < int ?n \<and> c ansl = 0 \<and> (\<forall>k. 0 \<le> k \<and> k < ansl \<longrightarrow> c k < 0))"
      by auto
    from bin_last [of False "int ?n" s ?sa t c 0 "int ?n - 1" "- 1"] pr mono
    obtain ansr where br: "bin s ?sa t False 0 (int ?n - 1) (- 1) = Some ansr"
      and cr: "(ansr = - 1 \<and> (\<forall>k. 0 \<le> k \<and> k < int ?n \<longrightarrow> c k \<noteq> 0)) \<or>
        (0 \<le> ansr \<and> ansr < int ?n \<and> c ansr = 0 \<and> (\<forall>k. ansr < k \<and> k < int ?n \<longrightarrow> 0 < c k))"
      by auto
    show ?thesis
    proof (cases "ansl = - 1")
      case True
      with cl have none: "\<forall>k. 0 \<le> k \<and> k < int ?n \<longrightarrow> c k \<noteq> 0" by auto
      have "set (occ_spec s t) = {}"
      proof (rule ccontr)
        assume "set (occ_spec s t) \<noteq> {}"
        then obtain p where p: "p < ?n + 1 - ?m" "take ?m (drop p s) = t"
          by (auto simp: set_occ_spec)
        with m1 have "p \<in> set sa" using set by simp
        then obtain k where k: "k < length sa" "sa ! k = p" by (auto simp: in_set_conv_nth)
        with none len have "c (int k) \<noteq> 0" by simp
        with k p show False by (simp add: c0)
      qed
      then have "occ_spec s t = []" by simp
      with True bl br long show ?thesis by (simp add: sa_match_def)
    next
      case False
      with cl have l: "0 \<le> ansl" "ansl < int ?n" "c ansl = 0"
        and bel: "\<forall>k. 0 \<le> k \<and> k < ansl \<longrightarrow> c k < 0" by auto
      from l cr have r: "0 \<le> ansr" "ansr < int ?n" "c ansr = 0"
        and abo: "\<forall>k. ansr < k \<and> k < int ?n \<longrightarrow> 0 < c k" by auto
      have lr: "ansl \<le> ansr"
      proof (rule ccontr)
        assume "\<not> ansl \<le> ansr"
        with r have "0 \<le> ansr \<and> ansr < ansl" by simp
        with bel have "c ansr < 0" by blast
        with r show False by simp
      qed
      have mid0: "c k = 0" if "ansl \<le> k" "k \<le> ansr" for k
      proof -
        from l that r have "0 \<le> ansl \<and> ansl \<le> k \<and> k < int ?n"
          and "0 \<le> k \<and> k \<le> ansr \<and> ansr < int ?n" by simp_all
        with mono have "c ansl \<le> c k" "c k \<le> c ansr" by blast+
        with l r show ?thesis by simp
      qed
      have rng: "\<forall>i \<in> set [ansl..ansr]. 0 \<le> i \<and> i < int (length ?sa)"
        using l r len by simp
      let ?ans = "map (\<lambda>i. ?sa ! nat i) [ansl..ansr]"
      have th: "those (map (at ?sa) [ansl..ansr]) = Some ?ans"
        using rng by (rule those_map_at_Some)
      have eq: "sa_match s ?sa t = Some (sort ?ans)"
        using long bl br False lr th by (simp add: sa_match_def)
      have dsa: "distinct ?sa"
        using suffix_array_distinct [OF SA] by (simp add: distinct_map)
      have dans: "distinct ?ans" using dsa th by (rule slice_distinct)
      have sets: "set ?ans = set (occ_spec s t)"
      proof (intro equalityI subsetI)
        fix x assume "x \<in> set ?ans"
        then obtain k where k: "ansl \<le> k" "k \<le> ansr" "x = ?sa ! nat k" by auto
        with l r len have x: "x = int (sa ! nat k)" by simp
        from mid0 [OF k(1,2)] have occ: "take ?m (drop (sa ! nat k) s) = t" by (simp add: c0)
        from occurrence_in_range [OF this ne] have "sa ! nat k < ?n + 1 - ?m" by simp
        with occ x show "x \<in> set (occ_spec s t)" by (auto simp: set_occ_spec)
      next
        fix x assume "x \<in> set (occ_spec s t)"
        then obtain p where p: "x = int p" "p < ?n + 1 - ?m" "take ?m (drop p s) = t"
          by (auto simp: set_occ_spec)
        with m1 have "p \<in> set sa" using set by simp
        then obtain k where k: "k < length sa" "sa ! k = p" by (auto simp: in_set_conv_nth)
        with p have ck: "c (int k) = 0" by (simp add: c0)
        have "ansl \<le> int k"
        proof (rule ccontr)
          assume "\<not> ansl \<le> int k"
          then have "0 \<le> int k \<and> int k < ansl" by simp
          with bel have "c (int k) < 0" by blast
          with ck show False by simp
        qed
        moreover have "int k \<le> ansr"
        proof (rule ccontr)
          assume "\<not> int k \<le> ansr"
          with k len have "ansr < int k \<and> int k < int ?n" by simp
          with abo have "0 < c (int k)" by blast
          with ck show False by simp
        qed
        ultimately have "int k \<in> set [ansl..ansr]" by simp
        then have "?sa ! nat (int k) \<in> (\<lambda>i. ?sa ! nat i) ` set [ansl..ansr]" by (rule imageI)
        then have "?sa ! nat (int k) \<in> set ?ans" by (simp only: set_map)
        with k p show "x \<in> set ?ans" by simp
      qed
      have s1: "sorted (sort ?ans)" by simp
      have d1: "distinct (sort ?ans)" using dans by simp
      from strict_sorted_occ_spec [of s t]
      have s2: "sorted (occ_spec s t)" and d2: "distinct (occ_spec s t)"
        by (simp_all add: strict_sorted_iff)
      have "set (sort ?ans) = set ?ans" by simp
      also note sets
      finally have st: "set (sort ?ans) = set (occ_spec s t)" .
      have "sort ?ans = occ_spec s t"
        by (rule sorted_distinct_set_unique [OF s1 d1 s2 d2 st])
      with eq show ?thesis by simp
    qed
  qed
qed

lemma findAll_guard: "findAll S [] = []" and findAll_empty_text: "m_n S = 0 \<Longrightarrow> findAll S pattern = []"
  by (simp_all add: findAll_def)

lemma sa_match_empty_text: "t \<noteq> [] \<Longrightarrow> sa_match [] sa t = Some []"
  by (simp add: sa_match_def)

lemma findAll_correct:
  assumes "new_SuffixArray t = Some S" and ne: "pattern \<noteq> []"
  shows "map int (findAll S pattern) = occ_spec t pattern"
proof (cases "length t = 0")
  case True
  with new_SuffixArray_valid [OF assms(1)] ne show ?thesis
    by (simp add: findAll_def occ_spec_def)
next
  case False
  note v = new_SuffixArray_valid [OF assms(1)]
  let ?n = "length t" and ?m = "length pattern"
  let ?l = "findLeft S pattern" and ?r = "findRight S pattern"
  let ?c = "\<lambda>k. comparePattern S pattern (m_sa S ! k)"
  from v have SA: "is_suffix_array t (m_sa S)" and n: "m_n S = ?n" by simp_all
  from SA have len: "length (m_sa S) = ?n" and set: "set (m_sa S) = {0..<?n}"
    by (simp_all add: is_suffix_array_def)
  note L = findLeft_partition [OF v(2,3), of pattern]
  note R = findRight_partition [OF v(2,3), of pattern]
  have c0: "?c k = 0 \<longleftrightarrow> take ?m (drop (m_sa S ! k) t) = pattern" for k
    unfolding comparePattern_lex [OF v(2)] v(1) by auto
  have inside: "?l \<le> k \<and> k < ?r \<longleftrightarrow> ?c k = 0" if "k < ?n" for k
  proof
    assume "?l \<le> k \<and> k < ?r"
    with L(3) R(2) that len have "\<not> 0 < ?c k" "0 \<le> ?c k" by simp_all
    then show "?c k = 0" by simp
  next
    assume z: "?c k = 0"
    have "?l \<le> k"
    proof (rule ccontr)
      assume "\<not> ?l \<le> k"
      with L(2) have "0 < ?c k" by simp
      with z show False by simp
    qed
    moreover have "k < ?r"
    proof (rule ccontr)
      assume "\<not> k < ?r"
      with R(3) that len have "\<not> 0 \<le> ?c k" by simp
      with z show False by simp
    qed
    ultimately show "?l \<le> k \<and> k < ?r" by simp
  qed
  let ?xs = "map (\<lambda>i. m_sa S ! i) [?l..<?r]"
  from False ne n have eq: "findAll S pattern = sort ?xs" by (simp add: findAll_def)
  have dxs: "distinct ?xs"
  proof -
    have "inj_on (\<lambda>i. m_sa S ! i) (set [?l..<?r])"
    proof (rule inj_onI)
      fix x y assume "x \<in> set [?l..<?r]" "y \<in> set [?l..<?r]" "m_sa S ! x = m_sa S ! y"
      with R(1) suffix_array_distinct [OF SA] show "x = y"
        by (simp add: nth_eq_iff_index_eq)
    qed
    then show ?thesis by (simp add: distinct_map)
  qed
  have sets: "int ` set ?xs = set (occ_spec t pattern)"
  proof (intro equalityI subsetI)
    fix x assume "x \<in> int ` set ?xs"
    then obtain k where k: "?l \<le> k" "k < ?r" "x = int (m_sa S ! k)" by auto
    with R(1) len have kn: "k < ?n" by simp
    from inside [OF kn] k have occ: "take ?m (drop (m_sa S ! k) t) = pattern" by (simp add: c0)
    from occurrence_in_range [OF this ne] have "m_sa S ! k < ?n + 1 - ?m" by simp
    with occ k show "x \<in> set (occ_spec t pattern)" by (auto simp: set_occ_spec)
  next
    fix x assume "x \<in> set (occ_spec t pattern)"
    then obtain p where p: "x = int p" "p < ?n + 1 - ?m" "take ?m (drop p t) = pattern"
      by (auto simp: set_occ_spec)
    from ne have "1 \<le> ?m" by (cases pattern) simp_all
    with p have "p \<in> set (m_sa S)" using set by simp
    then obtain k where k: "k < length (m_sa S)" "m_sa S ! k = p" by (auto simp: in_set_conv_nth)
    with p have "take ?m (drop (m_sa S ! k) t) = pattern" by simp
    then have "?c k = 0" by (simp only: c0)
    with inside [of k] k len have "k \<in> set [?l..<?r]" by simp
    then have "m_sa S ! k \<in> (\<lambda>i. m_sa S ! i) ` set [?l..<?r]" by (rule imageI)
    then have "m_sa S ! k \<in> set ?xs" by (simp only: set_map)
    with k p show "x \<in> int ` set ?xs" by auto
  qed
  have s1: "sorted (map int (sort ?xs))"
    by (simp add: sorted_wrt_map sorted_wrt_mono_rel [OF _ sorted_sort [of ?xs]])
  have d1: "distinct (map int (sort ?xs))" using dxs by (simp add: distinct_map)
  from strict_sorted_occ_spec [of t pattern]
  have s2: "sorted (occ_spec t pattern)" and d2: "distinct (occ_spec t pattern)"
    by (simp_all add: strict_sorted_iff)
  have "set (map int (sort ?xs)) = int ` set ?xs" by simp
  also note sets
  finally have st: "set (map int (sort ?xs)) = set (occ_spec t pattern)" .
  from sorted_distinct_set_unique [OF s1 d1 s2 d2 st] eq show ?thesis by simp
qed

subsection \<open>Patterns with a zero code unit, empty patterns\<close>

text \<open>
  C1 at its failing input. The pattern \<open>b\<close> followed by a zero code unit does not occur
  in \<open>aab\<close>, yet \<^verbatim>\<open>sa_match\<close> returns position \<open>2\<close>: the comparison runs over the end of
  the text and takes the terminator of the buffer for a code unit of the text; the
  matcher on the object returns the empty list there. With two zeros after \<open>b\<close> in the
  pattern and the text \<open>aaab\<close> \<^verbatim>\<open>sa_match\<close> reads past the terminator.
\<close>

theorem sa_match_reads_terminator:
  "is_suffix_array [97, 97, 98] [0, 1, 2] \<and>
   sa_match [97, 97, 98] [0, 1, 2] [98, 0] = Some [2] \<and>
   occ_spec [97, 97, 98] [98, 0] = [] \<and>
   map_option (\<lambda>S. findAll S [98, 0]) (new_SuffixArray [97, 97, 98]) = Some [] \<and>
   is_suffix_array [97, 97, 97, 98] [0, 1, 2, 3] \<and>
   sa_match [97, 97, 97, 98] [0, 1, 2, 3] [98, 0, 0] = None"
  by code_simp

text \<open>
  C2 at its failing inputs. With an empty pattern every comparison is over zero code
  units and gives equality: on the text \<open>ab\<close> the search (\<^verbatim>\<open>sa_match\<close>) returns every
  position, and on the empty text it returns position \<open>0\<close>. The matcher on the object
  has the guard and returns the empty list on both.
\<close>

theorem sa_match_empty_pattern:
  "is_suffix_array [97, 98] [0, 1] \<and> search [97, 98] [0, 1] [] = Some [0, 1] \<and>
   is_suffix_array [] [] \<and> search [] [] [] = Some [0] \<and>
   map_option (\<lambda>S. findAll S []) (new_SuffixArray [97, 98]) = Some [] \<and>
   map_option (\<lambda>S. findAll S []) (new_SuffixArray []) = Some []"
  by code_simp

subsection \<open>Grouped queries return\<close>

text \<open>
  Hence a grouped query returns a list whenever no pattern of the group is empty or holds
  a zero code unit.
\<close>

lemma grouped_match_defined:
  assumes "is_suffix_array s sa" and "\<forall>p \<in> set (strs data). p \<noteq> [] \<and> 0 \<notin> set p"
  shows "\<exists>out. grouped_match s (map int sa) data md = Some out"
proof -
  have "list_all2 (\<lambda>p occ. sa_match s (map int sa) p = Some occ)
          (strs data) (map (occ_spec s) (strs data))"
    using assms by (simp add: list_all2_conv_all_nth sa_match_correct)
  then have "those (map (sa_match s (map int sa)) (strs data)) = Some (map (occ_spec s) (strs data))"
    by (simp add: those_map_iff)
  then show ?thesis by (simp add: grouped_match_def)
qed

end
